theory Spec2Isabelle
  imports Complex_Main "HOL-Library.Word"
begin

section \<open>Machine types\<close>

text \<open>
  The C++ types of the sources: \<open>unsigned\<close> is a 32-bit word, \<open>size_t\<close> a 64-bit word,
  \<open>int64_t\<close> a 64-bit word read with \<open>sint\<close>. \<open>int\<close> values that the code keeps
  non-negative and only compares are kept as HOL \<open>int\<close>, every conversion written out.
  A \<open>QByteArray\<close> is a list of bytes, a \<open>QString\<close> a \<open>string\<close>.
\<close>

type_synonym u32 = "32 word"
type_synonym u64 = "64 word"
type_synonym bytes = "8 word list"

section \<open>RPCMsgId (src/src/RPCMsgId.h)\<close>

datatype Type = Null | Integer | String

record RPCMsgId =
  "typ" :: Type
  idata :: "64 word"
  sdata :: string

text \<open>\<open>RPCMsgId() = default\<close>: the member initialisers of the class (\<open>typ = Null\<close>, \<open>idata{}\<close>, \<open>sdata{}\<close>).\<close>

definition RPCMsgId_default :: RPCMsgId where
  "RPCMsgId_default = \<lparr>typ = Null, idata = 0, sdata = []\<rparr>"

text \<open>\<open>RPCMsgId(int64_t intVal) : typ(Integer), idata(intVal)\<close>.\<close>

definition RPCMsgId_of_int :: "64 word \<Rightarrow> RPCMsgId" where
  "RPCMsgId_of_int intVal = RPCMsgId_default\<lparr>typ := Integer, idata := intVal\<rparr>"

text \<open>\<open>RPCMsgId(const QString &str) : typ(Integer), sdata(str)\<close>: the copying construction.\<close>

definition RPCMsgId_of_QString_copy :: "string \<Rightarrow> RPCMsgId" where
  "RPCMsgId_of_QString_copy str = RPCMsgId_default\<lparr>typ := Integer, sdata := str\<rparr>"

text \<open>\<open>RPCMsgId(QString &&str) : typ(String), sdata(std::move(str))\<close>: the moving construction.\<close>

definition RPCMsgId_of_QString_move :: "string \<Rightarrow> RPCMsgId" where
  "RPCMsgId_of_QString_move str = RPCMsgId_default\<lparr>typ := String, sdata := str\<rparr>"

text \<open>\<open>operator=(const QString &)\<close> and \<open>operator=(QString &&)\<close>: both set \<open>typ = String\<close>.\<close>

definition assign_QString_copy :: "RPCMsgId \<Rightarrow> string \<Rightarrow> RPCMsgId" where
  "assign_QString_copy r s = r\<lparr>typ := String, sdata := s, idata := 0\<rparr>"

definition assign_QString_move :: "RPCMsgId \<Rightarrow> string \<Rightarrow> RPCMsgId" where
  "assign_QString_move r s = r\<lparr>typ := String, sdata := s, idata := 0\<rparr>"

text \<open>\<open>operator=(int64_t)\<close>.\<close>

definition assign_int :: "RPCMsgId \<Rightarrow> 64 word \<Rightarrow> RPCMsgId" where
  "assign_int r i = r\<lparr>typ := Integer, sdata := [], idata := i\<rparr>"

definition isNull :: "RPCMsgId \<Rightarrow> bool" where
  "isNull r = (typ r = Null)"

text \<open>\<open>Type type() const { return typ; }\<close>\<close>

definition type :: "RPCMsgId \<Rightarrow> Type" where
  "type r = typ r"

section \<open>Decimal text of numbers (\<open>QString::arg\<close>)\<close>

text \<open>
  \<open>QString("...%1").arg(n)\<close> writes \<open>n\<close> in decimal. \<open>string_of_nat\<close> is the decimal
  text of an unsigned value, \<open>string_of_int\<close> that of a signed one.
\<close>

function string_of_nat :: "nat \<Rightarrow> string" where
  "string_of_nat n =
     (if n < 10 then [''0123456789'' ! n]
      else string_of_nat (n div 10) @ [''0123456789'' ! (n mod 10)])"
  by pat_completeness auto
termination
  by (relation "measure id") auto

declare string_of_nat.simps [simp del]

definition string_of_int :: "int \<Rightarrow> string" where
  "string_of_int i =
     (if i < 0 then CHR ''-'' # string_of_nat (nat (- i)) else string_of_nat (nat i))"

section \<open>The block-download task (src/Controller.cpp, DownloadBlocksTask)\<close>

text \<open>
  PreProcessedBlock is declared in BlockProc.h, which is not among the sources; the
  fields the Controller reads are kept (\<open>height\<close>, \<open>sizeBytes\<close>, \<open>header\<close>).
\<close>

record PreProcessedBlock =
  height :: u32
  sizeBytes :: nat
  header :: bytes

text \<open>
  The task's members. \<open>lastProgress\<close> (a double) and the statistics counters
  \<open>nTx\<close>, \<open>nIns\<close>, \<open>nOuts\<close> are left out: nothing below reads them.
  \<open>again\<close> counts the calls of \<open>process()\<close> that \<open>AGAIN()\<close> has queued and that have
  not run yet; \<open>errorCode\<close> and \<open>errorMessage\<close> are the members of the base class CtlTask.
\<close>

record DownloadBlocksTask =
  "from" :: u32
  to :: u32
  stride :: u32
  expectedCt :: u32
  "next" :: u32
  goodCt :: u32
  maybeDone :: bool
  q_ct :: int
  errorCode :: int
  errorMessage :: string
  again :: nat

text \<open>
  What a step of the task sends out: the signals \<open>success\<close>, \<open>errored\<close> and \<open>progress\<close>,
  the two requests to bitcoind, and the hand-over \<open>ctl->putBlock(this, ppb)\<close>.
\<close>

datatype TaskEvent =
    EmitSuccess
  | EmitErrored
  | EmitProgress
  | SubmitGetBlockHash u32
  | SubmitGetBlock bytes
  | CtlPutBlock PreProcessedBlock

text \<open>
  What the task uses and the sources do not define: \<open>bitcoin::uint256::width()\<close>,
  \<open>BTC::GetBlockHeaderSize()\<close> (the value of \<open>HEADER_SIZE\<close>), \<open>BTC::HashRev\<close>,
  \<open>BitcoinDMgr::N_CLIENTS\<close>, and \<open>PreProcessedBlock::makeShared\<close> applied to the
  deserialised block (given the height, the size of the raw block and the raw block).
\<close>

record TaskEnv =
  uint256_width :: nat
  HEADER_SIZE :: nat
  HashRev :: "bytes \<Rightarrow> bytes"
  N_CLIENTS :: int
  makeShared :: "u32 \<Rightarrow> nat \<Rightarrow> bytes \<Rightarrow> PreProcessedBlock"

text \<open>\<open>static constexpr int max_q = BitcoinDMgr::N_CLIENTS+1\<close>\<close>

definition max_q :: "TaskEnv \<Rightarrow> int" where
  "max_q env = N_CLIENTS env + 1"

text \<open>
  \<open>nToDL(from, to, stride) = size_t( (((to-from)+1) + stride-1) / qMax(stride, 1U) )\<close>,
  computed on \<open>unsigned\<close> and then widened.
\<close>

definition nToDL :: "u32 \<Rightarrow> u32 \<Rightarrow> u32 \<Rightarrow> u64" where
  "nToDL from' to' stride' = ucast (((((to' - from') + 1) + stride') - 1) div (max stride' 1))"

text \<open>
  The constructor: \<open>expectedCt(unsigned(nToDL(from, to, stride)))\<close>, \<open>next = from\<close>, the other
  members at their initialisers. \<open>DownloadBlocksTask_ctor_ok\<close> is the condition of its
  FatalAssert (the Controller pointer is never null here).
\<close>

definition DownloadBlocksTask_ctor :: "u32 \<Rightarrow> u32 \<Rightarrow> u32 \<Rightarrow> DownloadBlocksTask" where
  "DownloadBlocksTask_ctor from' to' stride' =
     \<lparr>from = from', to = to', stride = stride',
      expectedCt = ucast (nToDL from' to' stride'),
      next = from', goodCt = 0, maybeDone = False, q_ct = 0,
      errorCode = 0, errorMessage = [], again = 0\<rparr>"

definition DownloadBlocksTask_ctor_ok :: "u32 \<Rightarrow> u32 \<Rightarrow> u32 \<Rightarrow> bool" where
  "DownloadBlocksTask_ctor_ok from' to' stride' = (to' \<ge> from' \<and> stride' > 0)"

text \<open>
  \<open>DownloadBlocksTask::process()\<close>. \<open>errorCode = int(expectedCt - goodCt)\<close> is the
  unsigned difference read as a signed 32-bit value. \<open>do_get(next)\<close> submits the
  request \<open>getblockhash\<close> for that height.
\<close>

definition DownloadBlocksTask_process :: "DownloadBlocksTask \<Rightarrow> DownloadBlocksTask \<times> TaskEvent list" where
  "DownloadBlocksTask_process t =
     (if next t > to t then
        (if maybeDone t then
           (if goodCt t \<ge> expectedCt t then (t, [EmitSuccess])
            else
              (let ec = sint (expectedCt t - goodCt t)
               in (t\<lparr>errorCode := ec,
                     errorMessage := ''missing '' @ string_of_int ec @ '' headers''\<rparr>,
                   [EmitErrored])))
         else (t, []))
      else (t\<lparr>next := next t + stride t\<rparr>, [SubmitGetBlockHash (next t)]))"

text \<open>
  The reply handler of \<open>getblockhash\<close> in \<open>do_get(bnum)\<close>; \<open>hash\<close> is
  \<open>Util::ParseHexFast(var.toByteArray())\<close>, the decoded reply.
\<close>

definition do_get_hash_reply ::
  "TaskEnv \<Rightarrow> u32 \<Rightarrow> bytes \<Rightarrow> DownloadBlocksTask \<Rightarrow> DownloadBlocksTask \<times> TaskEvent list" where
  "do_get_hash_reply env bnum hash t =
     (if length hash = uint256_width env then (t, [SubmitGetBlock hash])
      else (t\<lparr>errorCode := sint bnum,
               errorMessage := ''invalid hash for height '' @ string_of_nat (unat bnum)\<rparr>,
            [EmitErrored]))"

text \<open>
  The loop \<open>while (goodCt + unsigned(q_ct) < expectedCt && q_ct < max_q) { AGAIN(); ++q_ct; }\<close>
\<close>

function queue_more :: "TaskEnv \<Rightarrow> DownloadBlocksTask \<Rightarrow> DownloadBlocksTask" where
  "queue_more env t =
     (if goodCt t + word_of_int (q_ct t) < expectedCt t \<and> q_ct t < max_q env
      then queue_more env (t\<lparr>again := again t + 1, q_ct := q_ct t + 1\<rparr>)
      else t)"
  by pat_completeness auto
termination
  by (relation "measure (\<lambda>(env, t). nat (max_q env - q_ct t))") auto

declare queue_more.simps [simp del]

text \<open>
  The reply handler of \<open>getblock\<close> in \<open>do_get(bnum)\<close>; \<open>rawblock\<close> is the decoded reply
  and \<open>hash\<close> the hash the first reply gave. \<open>progress\<close> is emitted when
  \<open>!(bnum % 1000) && bnum\<close>.
\<close>

definition do_get_block_reply ::
  "TaskEnv \<Rightarrow> u32 \<Rightarrow> bytes \<Rightarrow> bytes \<Rightarrow> DownloadBlocksTask \<Rightarrow> DownloadBlocksTask \<times> TaskEvent list" where
  "do_get_block_reply env bnum hash rawblock t =
     (let header = take (HEADER_SIZE env) rawblock;
          sizeOk = (length header = HEADER_SIZE env)
      in
        if sizeOk \<and> HashRev env header = hash then
          (let ppb = makeShared env bnum (length rawblock) rawblock;
               t1 = t\<lparr>goodCt := goodCt t + 1, q_ct := max (q_ct t - 1) 0\<rparr>;
               evs = (if bnum mod 1000 = 0 \<and> bnum \<noteq> 0 then [EmitProgress] else [])
                     @ [CtlPutBlock ppb]
           in if goodCt t1 \<ge> expectedCt t1
              then (t1\<lparr>maybeDone := True, again := again t1 + 1\<rparr>, evs)
              else (queue_more env t1, evs))
        else if \<not> sizeOk then
          (t\<lparr>errorCode := sint bnum,
              errorMessage := ''bad size for height '' @ string_of_nat (unat bnum)\<rparr>,
           [EmitErrored])
        else
          (t\<lparr>errorCode := sint bnum,
              errorMessage := ''hash mismatch for height '' @ string_of_nat (unat bnum)\<rparr>,
           [EmitErrored]))"

text \<open>
  The two handlers of \<open>do_get(bnum)\<close> in sequence: the reply to \<open>getblockhash\<close> and,
  when it has sent the request \<open>getblock\<close>, the reply to that.
\<close>

definition do_get_replies ::
  "TaskEnv \<Rightarrow> u32 \<Rightarrow> bytes \<Rightarrow> bytes \<Rightarrow> DownloadBlocksTask \<Rightarrow> DownloadBlocksTask \<times> TaskEvent list" where
  "do_get_replies env bnum hash rawblock t =
     (case do_get_hash_reply env bnum hash t of
        (t1, evs) \<Rightarrow>
          if evs = [SubmitGetBlock hash] then do_get_block_reply env bnum hash rawblock t1
          else (t1, evs))"

text \<open>
  The heights a task asks for in its first \<open>n\<close> calls of \<open>process()\<close>, in the order
  of the requests.
\<close>

fun requested :: "nat \<Rightarrow> DownloadBlocksTask \<Rightarrow> u32 list" where
  "requested 0 t = []"
| "requested (Suc n) t =
     (case DownloadBlocksTask_process t of
        (t', evs) \<Rightarrow> concat (map (\<lambda>e. case e of SubmitGetBlockHash h \<Rightarrow> [h] | _ \<Rightarrow> []) evs)
                     @ requested n t')"

section \<open>The event loop of a download task\<close>




















section \<open>The Controller (src/Controller.cpp)\<close>

subsection \<open>Data\<close>

text \<open>The fields of ChainInfo that the Controller reads.\<close>

record ChainInfo =
  chain :: string
  blocks :: int
  initialBlockDownload :: bool

datatype State = Begin | GetBlocks | DownloadingBlocks | FinishedDL | End | Failure | IBD

text \<open>
  \<open>Controller::StateMachine\<close>. \<open>ppBlocks\<close> is a \<open>std::map<unsigned, PreProcessedBlockPtr>\<close>:
  a list of pairs in ascending order of the keys, each key once; \<open>begin()\<close> is its head.
  The counters \<open>nTx\<close>, \<open>nIns\<close>, \<open>nOuts\<close> only feed log lines and are left out.
\<close>

record StateMachine =
  state :: State
  ht :: int
  ppBlocks :: "(u32 \<times> PreProcessedBlock) list"
  ppBlkHtNext :: u32
  startheight :: u32
  endHeight :: u32
  DL_CONCURRENCY :: u64

text \<open>\<open>sm->ppBlocks[k] = v\<close> on the ordered map.\<close>

fun map_assign :: "u32 \<Rightarrow> 'a \<Rightarrow> (u32 \<times> 'a) list \<Rightarrow> (u32 \<times> 'a) list" where
  "map_assign k v [] = [(k, v)]"
| "map_assign k v ((k', v') # m) =
     (if k < k' then (k, v) # (k', v') # m
      else if k = k' then (k, v) # m
      else (k', v') # map_assign k v m)"

text \<open>
  The tasks the Controller owns. A task pointer is a number.
\<close>

datatype CtlTask = GetChainInfoTask | DLTask DownloadBlocksTask

datatype Signal = synchronizing | upToDate | synchFailure

text \<open>
  The Controller with the parts of Storage it works on: \<open>tasks\<close> (the map from task
  pointer to task, \<open>nextTask\<close> the pointer the next \<open>new\<close> returns), the header vector
  \<open>st_headers\<close>, the shared header verifier \<open>st_verifier\<close>, the chain name \<open>st_chain\<close>, the
  number \<open>st_saves\<close> of calls of \<open>storage->save(Hdrs)\<close>, the timer named \<open>pollTimerName\<close>
  (\<open>None\<close> when stopped, else its timeout in ms), the number \<open>ctl_again\<close> of calls of
  \<open>process()\<close> that \<open>AGAIN()\<close> has queued, the signals emitted so far, and \<open>fatal\<close>, set
  when \<open>Fatal()\<close> or a failing FatalAssert ends the program.
  \<open>appended\<close> is a trace that the sources do not keep: the height of the block of every
  header inserted into the header vector, in the order of the insertions.
\<close>

record 'v Controller =
  sm :: "StateMachine option"
  tasks :: "(nat \<times> CtlTask) list"
  nextTask :: nat
  st_headers :: "bytes list"
  st_verifier :: 'v
  st_chain :: string
  st_saves :: nat
  pollTimer :: "nat option"
  ctl_again :: nat
  signals :: "Signal list"
  fatal :: bool
  appended :: "u32 list"

text \<open>
  What the Controller uses and the sources do not define: the header verifier
  (\<open>verify v h\<close> gives the verdict of \<open>verif(header, &err)\<close> and the state it leaves the
  verifier in, also when it rejects), \<open>lastHeaderProcessed().second\<close>,
  \<open>BTC::GetBlockHeaderSize()\<close>, \<open>polltime_ms\<close> and \<open>Util::getNPhysicalProcessors()\<close>.
\<close>

record 'v CtlEnv =
  verify :: "'v \<Rightarrow> bytes \<Rightarrow> bool \<times> 'v"
  lastHeaderProcessed :: "'v \<Rightarrow> bytes"
  GetBlockHeaderSize :: nat
  polltime_ms :: nat
  getNPhysicalProcessors :: u32

subsection \<open>Helpers\<close>

text \<open>\<open>AGAIN()\<close> queues one more call of \<open>process()\<close>.\<close>

definition AGAIN :: "'v Controller \<Rightarrow> 'v Controller" where
  "AGAIN c = c\<lparr>ctl_again := ctl_again c + 1\<rparr>"

definition emit :: "Signal \<Rightarrow> 'v Controller \<Rightarrow> 'v Controller" where
  "emit s c = c\<lparr>signals := signals c @ [s]\<rparr>"

definition stopTimer :: "'v Controller \<Rightarrow> 'v Controller" where
  "stopTimer c = c\<lparr>pollTimer := None\<rparr>"

definition callOnTimerSoonNoRepeat :: "nat \<Rightarrow> 'v Controller \<Rightarrow> 'v Controller" where
  "callOnTimerSoonNoRepeat ms c = c\<lparr>pollTimer := Some ms\<rparr>"

text \<open>\<open>storage->save(Storage::SaveItem::Hdrs)\<close>\<close>

definition storage_save :: "'v Controller \<Rightarrow> 'v Controller" where
  "storage_save c = c\<lparr>st_saves := st_saves c + 1\<rparr>"

text \<open>\<open>isTaskDeleted(t) = (tasks.count(t) == 0)\<close>\<close>

definition isTaskDeleted :: "'v Controller \<Rightarrow> nat \<Rightarrow> bool" where
  "isTaskDeleted c t = (map_of (tasks c) t = None)"

text \<open>\<open>rmTask\<close>: erase the task when it is found (else only an error is logged).\<close>

definition rmTask :: "nat \<Rightarrow> 'v Controller \<Rightarrow> 'v Controller" where
  "rmTask t c = c\<lparr>tasks := filter (\<lambda>kv. fst kv \<noteq> t) (tasks c)\<rparr>"

text \<open>\<open>newTask\<close>: \<open>new CtlTaskT(...)\<close> and \<open>tasks.emplace(task, task)\<close>.\<close>

definition newTask :: "CtlTask \<Rightarrow> 'v Controller \<Rightarrow> 'v Controller" where
  "newTask task c = c\<lparr>tasks := tasks c @ [(nextTask c, task)], nextTask := nextTask c + 1\<rparr>"

text \<open>
  \<open>add_DLHeaderTask(from, to, nTasks)\<close>: a new DownloadBlocksTask with the stride
  \<open>unsigned(nTasks)\<close>; the FatalAssert of its constructor ends the program when it fails.
\<close>

definition add_DLHeaderTask :: "u32 \<Rightarrow> u32 \<Rightarrow> u64 \<Rightarrow> 'v Controller \<Rightarrow> 'v Controller" where
  "add_DLHeaderTask from' to' nTasks c =
     (let c1 = newTask (DLTask (DownloadBlocksTask_ctor from' to' (ucast nTasks))) c
      in if DownloadBlocksTask_ctor_ok from' to' (ucast nTasks) then c1 else c1\<lparr>fatal := True\<rparr>)"

text \<open>
  \<open>genericTaskErrored\<close>: \<open>if (sm && sm->state != Failure) { sm->state = Failure; AGAIN(); }\<close>
\<close>

definition genericTaskErrored :: "'v Controller \<Rightarrow> 'v Controller" where
  "genericTaskErrored c =
     (case sm c of
        None \<Rightarrow> c
      | Some s \<Rightarrow>
          if state s \<noteq> Failure then AGAIN (c\<lparr>sm := Some (s\<lparr>state := Failure\<rparr>)\<rparr>) else c)"

text \<open>The handler that \<open>add_DLHeaderTask\<close> connects to the \<open>errored\<close> signal of its task.\<close>

definition on_DLTask_errored :: "nat \<Rightarrow> 'v Controller \<Rightarrow> 'v Controller" where
  "on_DLTask_errored t c =
     (case sm c of
        None \<Rightarrow> c
      | Some s \<Rightarrow>
          if isTaskDeleted c t then c
          else if state s = Failure then c
          else genericTaskErrored c)"

text \<open>A new state machine: \<open>DL_CONCURRENCY = qMax(Util::getNPhysicalProcessors()-1, 1U)\<close>.\<close>

definition StateMachine_new :: "'v CtlEnv \<Rightarrow> StateMachine" where
  "StateMachine_new env =
     \<lparr>state = Begin, ht = - 1, ppBlocks = [], ppBlkHtNext = 0, startheight = 0, endHeight = 0,
      DL_CONCURRENCY = ucast (max (getNPhysicalProcessors env - 1) 1)\<rparr>"

subsection \<open>The chain-info probe's success handler (in \<open>Controller::process\<close>, state Begin)\<close>

text \<open>
  \<open>old = int(storage->headers().first.size())-1\<close>: the size of the vector narrowed to a
  signed 32-bit value. \<open>Fatal()\<close> is followed by \<open>return\<close> at both places.
\<close>

definition on_GetChainInfo_success ::
  "nat \<Rightarrow> ChainInfo \<Rightarrow> bool \<Rightarrow> 'v Controller \<Rightarrow> 'v Controller" where
  "on_GetChainInfo_success task info beSilentIfUpToDate c =
     (case sm c of
        None \<Rightarrow> c
      | Some s \<Rightarrow>
          if isTaskDeleted c task then c
          else if initialBlockDownload info then AGAIN (c\<lparr>sm := Some (s\<lparr>state := IBD\<rparr>)\<rparr>)
          else
            (let dbchain = st_chain c in
             if \<not> (dbchain = [] \<and> chain info \<noteq> []) \<and> dbchain \<noteq> chain info
             then c\<lparr>fatal := True\<rparr>
             else
               (let c1 = (if dbchain = [] \<and> chain info \<noteq> [] then c\<lparr>st_chain := chain info\<rparr> else c);
                    old = sint (word_of_nat (length (st_headers c1)) :: 32 word) - 1;
                    s1 = s\<lparr>ht := blocks info\<rparr>
                in if old = ht s1 then
                     AGAIN ((if \<not> beSilentIfUpToDate then emit upToDate c1 else c1)
                              \<lparr>sm := Some (s1\<lparr>state := End\<rparr>)\<rparr>)
                   else if old > ht s1 then c1\<lparr>sm := Some s1, fatal := True\<rparr>
                   else AGAIN ((emit synchronizing c1)\<lparr>sm := Some (s1\<lparr>state := GetBlocks\<rparr>)\<rparr>))))"

subsection \<open>\<open>Controller::process\<close>, state GetBlocks\<close>

text \<open>
  \<open>base\<close>, \<open>num\<close> and \<open>nTasks\<close> are \<open>size_t\<close>; \<open>size_t(sm->ht+1)\<close>, \<open>unsigned(base)\<close>,
  \<open>unsigned(base + num) - 1\<close>, \<open>unsigned(base + i)\<close> and \<open>unsigned(sm->ht)\<close> are the
  conversions of the source. A failing FatalAssert ends the program.
\<close>

definition process_GetBlocks :: "StateMachine \<Rightarrow> 'v Controller \<Rightarrow> 'v Controller" where
  "process_GetBlocks s c =
     (if \<not> ht s \<ge> 0 then c\<lparr>fatal := True\<rparr>
      else
        (let base = (word_of_nat (length (st_headers c)) :: u64);
             num = (word_of_int (ht s + 1) :: u64) - base
         in if \<not> num > 0 then c\<lparr>fatal := True\<rparr>
            else
              (let nTasks = min num (DL_CONCURRENCY s);
                   s1 = s\<lparr>ppBlkHtNext := ucast base, startheight := ucast base,
                          endHeight := ucast (base + num) - 1\<rparr>;
                   c1 = foldl (\<lambda>c' i. add_DLHeaderTask (ucast (base + word_of_nat i))
                                         (word_of_int (ht s)) nTasks c')
                          (c\<lparr>sm := Some s1\<rparr>) [0..<unat nTasks]
               in c1\<lparr>sm := Some (s1\<lparr>state := DownloadingBlocks\<rparr>)\<rparr>)))"

subsection \<open>\<open>Controller::process_VerifyAndAddBlock\<close>\<close>

text \<open>
  \<open>assert(sm)\<close> first. The verifier is the shared one of Storage, changed in place by
  \<open>verif(ppb->header, &verifErr)\<close>; \<open>verifUndo\<close> is the copy taken before the call.
  \<open>nLeft = qMax(sm->endHeight - (sm->ppBlkHtNext-1), 0U)\<close> is unsigned. Reserving capacity
  in the vector changes no value and is left out.
\<close>

definition process_VerifyAndAddBlock ::
  "'v CtlEnv \<Rightarrow> PreProcessedBlock \<Rightarrow> 'v Controller \<Rightarrow> bool \<times> 'v Controller" where
  "process_VerifyAndAddBlock env ppb c =
     (case sm c of
        None \<Rightarrow> (False, c\<lparr>fatal := True\<rparr>)
      | Some s \<Rightarrow>
          (let verifUndo = st_verifier c;
               (ok, verif) = verify env (st_verifier c) (header ppb)
           in if \<not> ok then
                (False, AGAIN (c\<lparr>sm := Some (s\<lparr>state := Failure\<rparr>), st_verifier := verifUndo\<rparr>))
              else
                (let rawHeader = lastHeaderProcessed env verif;
                     c1 = c\<lparr>st_verifier := verif\<rparr>
                 in if length rawHeader \<noteq> GetBlockHeaderSize env then (False, c1\<lparr>fatal := True\<rparr>)
                    else
                      (let nLeft = max (endHeight s - (ppBlkHtNext s - 1)) 0;
                           c2 = c1\<lparr>st_headers := st_headers c1 @ [rawHeader],
                                   appended := appended c1 @ [height ppb]\<rparr>
                       in (True, if nLeft mod 10000 = 0 \<and> nLeft \<noteq> 0 then storage_save c2 else c2)))))"

subsection \<open>\<open>Controller::process_DownloadingBlocks\<close>\<close>

text \<open>
  The loop
  \<open>for (it = ppBlocks.begin(); it != ppBlocks.end() && it->first == ppBlkHtNext; it = ppBlocks.begin())\<close>.
  The result's first component tells whether the loop ran to its end (\<open>False\<close>: the
  function returned from inside the loop). A failing FatalAssert ends the program.
\<close>

lemma process_VerifyAndAddBlock_ppBlocks:
  "process_VerifyAndAddBlock env ppb c = (ok, c') \<Longrightarrow> sm c = Some s \<Longrightarrow>
   \<exists>s'. sm c' = Some s' \<and> ppBlocks s' = ppBlocks s"
  by (auto simp: process_VerifyAndAddBlock_def AGAIN_def storage_save_def Let_def
      split: prod.splits if_splits)

function drain :: "'v CtlEnv \<Rightarrow> 'v Controller \<Rightarrow> bool \<times> 'v Controller" where
  "drain env c =
     (case sm c of
        None \<Rightarrow> (True, c)
      | Some s \<Rightarrow>
          (case ppBlocks s of
             [] \<Rightarrow> (True, c)
           | (k, ppb) # rest \<Rightarrow>
               if k = ppBlkHtNext s then
                 (if height ppb \<noteq> ppBlkHtNext s then (False, c\<lparr>fatal := True\<rparr>)
                  else
                    (case process_VerifyAndAddBlock env ppb
                            (c\<lparr>sm := Some (s\<lparr>ppBlkHtNext := ppBlkHtNext s + 1, ppBlocks := rest\<rparr>)\<rparr>) of
                       (ok, c') \<Rightarrow> if ok then drain env c' else (False, c')))
               else (True, c)))"
  by pat_completeness auto
termination
  apply (relation "measure (\<lambda>(env, c). case sm c of None \<Rightarrow> 0 | Some s \<Rightarrow> length (ppBlocks s))")
   apply simp
  subgoal for env c s kp rest k ppb ok c'
    using process_VerifyAndAddBlock_ppBlocks
      [of env ppb "c\<lparr>sm := Some (s\<lparr>ppBlkHtNext := ppBlkHtNext s + 1, ppBlocks := rest\<rparr>)\<rparr>" ok c'
          "s\<lparr>ppBlkHtNext := ppBlkHtNext s + 1, ppBlocks := rest\<rparr>"]
    by auto
  done

declare drain.simps [simp del]

text \<open>
  After the loop: \<open>if (sm->ppBlkHtNext >= sm->endHeight) { sm->state = FinishedDL; AGAIN(); }\<close>
\<close>

definition process_DownloadingBlocks :: "'v CtlEnv \<Rightarrow> 'v Controller \<Rightarrow> 'v Controller" where
  "process_DownloadingBlocks env c =
     (case drain env c of
        (False, c') \<Rightarrow> c'
      | (True, c') \<Rightarrow>
          (case sm c' of
             None \<Rightarrow> c'
           | Some s \<Rightarrow>
               if ppBlkHtNext s \<ge> endHeight s
               then AGAIN (c'\<lparr>sm := Some (s\<lparr>state := FinishedDL\<rparr>)\<rparr>)
               else c'))"

subsection \<open>\<open>Controller::process\<close>\<close>

text \<open>
  \<open>stopTimer(pollTimerName)\<close> first, then a state machine is made when there is none, then
  the branch of the state. Each branch gives the Controller it leaves and the values of
  \<open>enablePollTimer\<close> and \<open>polltimeout\<close>; the timer is armed at the end.
\<close>

definition process :: "'v CtlEnv \<Rightarrow> bool \<Rightarrow> 'v Controller \<Rightarrow> 'v Controller" where
  "process env beSilentIfUpToDate c0 =
     (let c1 = stopTimer c0;
          s = (case sm c1 of None \<Rightarrow> StateMachine_new env | Some s' \<Rightarrow> s');
          c = c1\<lparr>sm := Some s\<rparr>;
          (c', enablePollTimer, polltimeout) =
            (case state s of
               Begin \<Rightarrow> (newTask GetChainInfoTask c, False, polltime_ms env)
             | GetBlocks \<Rightarrow> (process_GetBlocks s c, False, polltime_ms env)
             | DownloadingBlocks \<Rightarrow> (process_DownloadingBlocks env c, False, polltime_ms env)
             | FinishedDL \<Rightarrow> (storage_save (AGAIN (c\<lparr>sm := None\<rparr>)), False, polltime_ms env)
             | Failure \<Rightarrow> (emit synchFailure (c\<lparr>sm := None\<rparr>), True, polltime_ms env)
             | End \<Rightarrow> (c\<lparr>sm := None\<rparr>, True, polltime_ms env)
             | IBD \<Rightarrow> (emit synchFailure (c\<lparr>sm := None\<rparr>), True, 60 * 1000))
      in if enablePollTimer then callOnTimerSoonNoRepeat polltimeout c' else c')"

text \<open>The callback of the poll timer: \<open>[this]{ if (!sm) process(true); }\<close>\<close>

definition pollTimerCallback :: "'v CtlEnv \<Rightarrow> 'v Controller \<Rightarrow> 'v Controller" where
  "pollTimerCallback env c = (if sm c = None then process env True c else c)"

subsection \<open>\<open>Controller::putBlock\<close>\<close>

text \<open>The body that \<open>putBlock(task, p)\<close> posts to the Controller's thread.\<close>

definition putBlock :: "nat \<Rightarrow> PreProcessedBlock \<Rightarrow> 'v Controller \<Rightarrow> 'v Controller" where
  "putBlock task p c =
     (case sm c of
        None \<Rightarrow> c
      | Some s \<Rightarrow>
          if isTaskDeleted c task \<or> state s = Failure then c
          else if state s \<noteq> DownloadingBlocks then c
          else AGAIN (c\<lparr>sm := Some (s\<lparr>ppBlocks := map_assign (height p) p (ppBlocks s)\<rparr>)\<rparr>))"

subsection \<open>The Controller's event loop\<close>

text \<open>
  What the Controller's thread runs, one event at a time: a posted \<open>putBlock\<close>, a call of
  \<open>process()\<close> queued by \<open>AGAIN()\<close>, the poll timer firing (it does not repeat), the
  \<open>success\<close> handler of a chain-info probe (with the data the probe parsed and the flag
  \<open>beSilentIfUpToDate\<close> the handler captured), \<open>genericTaskErrored\<close> connected to the
  \<open>errored\<close> signal of a probe, the \<open>errored\<close> handler of a download task, and the
  \<open>finished\<close> signal of a task (\<open>rmTask\<close>). Nothing runs once the program has ended.
\<close>

datatype Event =
    PutBlock nat PreProcessedBlock
  | ProcessAgain
  | PollTimeout
  | ChainInfoSuccess nat ChainInfo bool
  | ProbeErrored
  | DLTaskErrored nat
  | TaskFinished nat

definition step :: "'v CtlEnv \<Rightarrow> 'v Controller \<Rightarrow> Event \<Rightarrow> 'v Controller" where
  "step env c ev =
     (if fatal c then c
      else
        (case ev of
           PutBlock task p \<Rightarrow> putBlock task p c
         | ProcessAgain \<Rightarrow>
             if ctl_again c = 0 then c else process env False (c\<lparr>ctl_again := ctl_again c - 1\<rparr>)
         | PollTimeout \<Rightarrow>
             (case pollTimer c of
                None \<Rightarrow> c
              | Some ms \<Rightarrow> pollTimerCallback env (c\<lparr>pollTimer := None\<rparr>))
         | ChainInfoSuccess task info b \<Rightarrow> on_GetChainInfo_success task info b c
         | ProbeErrored \<Rightarrow> genericTaskErrored c
         | DLTaskErrored task \<Rightarrow> on_DLTask_errored task c
         | TaskFinished task \<Rightarrow> rmTask task c))"

definition run :: "'v CtlEnv \<Rightarrow> 'v Controller \<Rightarrow> Event list \<Rightarrow> 'v Controller" where
  "run env c evs = foldl (step env) c evs"

section \<open>A concrete setting for the examples\<close>

text \<open>
  A small header verifier to run the model on: the verifier's state is the last header it
  accepted; a header is accepted when it has 80 bytes and its first byte is the first byte
  of the last header plus one. A rejected header is left behind in the verifier's state
  (as a verifier that has started to work on it would), so that the undo of the caller
  shows. Headers are 80 equal bytes, the block of height \<open>h\<close> carries the header of
  bytes \<open>h\<close>, and the store starts with the header of height 0. For the download task,
  hashes have 32 bytes and the hash of a header is 32 times its first byte.
\<close>

definition ex_tenv :: TaskEnv where
  "ex_tenv = \<lparr>uint256_width = 32, HEADER_SIZE = 80, HashRev = (\<lambda>h. replicate 32 (hd h)),
     N_CLIENTS = 3,
     makeShared = (\<lambda>h n raw. \<lparr>height = h, sizeBytes = n, header = take 80 raw\<rparr>)\<rparr>"

definition ex_verify :: "bytes \<Rightarrow> bytes \<Rightarrow> bool \<times> bytes" where
  "ex_verify v h = (if length h = 80 \<and> hd h = hd v + 1 then (True, h) else (False, h))"

definition ex_env :: "bytes CtlEnv" where
  "ex_env = \<lparr>verify = ex_verify, lastHeaderProcessed = (\<lambda>v. v), GetBlockHeaderSize = 80,
     polltime_ms = 2000, getNPhysicalProcessors = 4\<rparr>"

definition ex_hdr :: "8 word \<Rightarrow> bytes" where
  "ex_hdr x = replicate 80 x"

definition ex_blk :: "u32 \<Rightarrow> PreProcessedBlock" where
  "ex_blk h = \<lparr>height = h, sizeBytes = 80, header = ex_hdr (ucast h)\<rparr>"

definition ex_ctl :: "bytes Controller" where
  "ex_ctl = \<lparr>sm = None, tasks = [], nextTask = 0, st_headers = [ex_hdr 0],
     st_verifier = ex_hdr 0, st_chain = ''main'', st_saves = 0, pollTimer = None,
     ctl_again = 0, signals = [], fatal = False, appended = []\<rparr>"

definition ex_info :: "int \<Rightarrow> bool \<Rightarrow> ChainInfo" where
  "ex_info n ibd = \<lparr>chain = ''main'', blocks = n, initialBlockDownload = ibd\<rparr>"

text \<open>
  The example round: the store holds the header of height 0, bitcoind has reported the
  height 2, and state GetBlocks has made the two download tasks (of the heights 1 and 2).
\<close>

definition ex_sm :: StateMachine where
  "ex_sm = (StateMachine_new ex_env)\<lparr>state := DownloadingBlocks, ht := 2,
             ppBlkHtNext := 1, startheight := 1, endHeight := 2\<rparr>"

definition ex_dl :: "bytes Controller" where
  "ex_dl = ex_ctl\<lparr>sm := Some ex_sm,
             tasks := [(0, GetChainInfoTask), (1, DLTask (DownloadBlocksTask_ctor 1 2 2)),
                       (2, DLTask (DownloadBlocksTask_ctor 2 2 2))],
             nextTask := 3, signals := [synchronizing]\<rparr>"





section \<open>Notions used in the proofs\<close>

text \<open>
  \<open>cnt x T S\<close> is the number of the heights \<open>x\<close>, \<open>x + S\<close>, \<open>x + 2 S\<close>, ... that do not
  exceed \<open>T\<close>.
\<close>

definition cnt :: "nat \<Rightarrow> nat \<Rightarrow> nat \<Rightarrow> nat" where
  "cnt x T S = (if x > T then 0 else (T - x) div S + 1)"

text \<open>
  \<open>consecutive c c'\<close>: from \<open>c\<close> to \<open>c'\<close> the header vector has only grown, and the
  blocks whose headers were inserted have, in the order of the insertions, the heights
  that are the indices their headers went to. \<open>round_inv\<close>: while a round is in
  DownloadingBlocks, the next height awaited is the size of the header vector (as an
  \<open>unsigned\<close>). \<open>drain_post\<close> is what the loop of \<open>process_DownloadingBlocks\<close>
  establishes.
\<close>

definition consecutive :: "'v Controller \<Rightarrow> 'v Controller \<Rightarrow> bool" where
  "consecutive c c' =
     (length (st_headers c) \<le> length (st_headers c')
      \<and> appended c' = appended c @ map word_of_nat [length (st_headers c)..<length (st_headers c')])"

definition round_inv :: "'v Controller \<Rightarrow> bool" where
  "round_inv c =
     (fatal c \<or>
      (case sm c of
         None \<Rightarrow> True
       | Some s \<Rightarrow> state s = DownloadingBlocks \<longrightarrow> ppBlkHtNext s = word_of_nat (length (st_headers c))))"

definition drain_post :: "'v Controller \<Rightarrow> bool \<Rightarrow> 'v Controller \<Rightarrow> bool" where
  "drain_post c b c' =
     (consecutive c c' \<and> pollTimer c' = pollTimer c \<and> tasks c' = tasks c
      \<and> (fatal c' \<or> (\<exists>s'. sm c' = Some s' \<and>
            (if b then state s' = DownloadingBlocks
                    \<and> ppBlkHtNext s' = word_of_nat (length (st_headers c'))
             else state s' = Failure))))"

text \<open>
  \<open>ppBlocks_ok\<close>: \<open>ppBlocks\<close> is a list a \<open>std::map\<close> can stand for (its keys strictly
  ascending), and every block in it is stored under its own height.
\<close>

definition ppBlocks_ok :: "'v Controller \<Rightarrow> bool" where
  "ppBlocks_ok c =
     (case sm c of
        None \<Rightarrow> True
      | Some s \<Rightarrow> sorted_wrt (<) (map fst (ppBlocks s))
                  \<and> list_all (\<lambda>kp. height (snd kp) = fst kp) (ppBlocks s))"





section \<open>RPCMsgId: the tag of an id made from text\<close>

text \<open>
  C8 (evaluation of the code at the failing input). The claim asks that constructing an
  RPCMsgId from a text value gives \<open>type() == String\<close> for the copying and for the moving
  construction. The moving constructor does, and so do both assignment operators from text;
  the copying constructor tags the value \<open>Integer\<close>, for every text, here for \<open>''abc''\<close>.
\<close>

theorem C8_copy_ctor_tags_Integer:
  "type (RPCMsgId_of_QString_copy ''abc'') = Integer
   \<and> type (RPCMsgId_of_QString_copy ''abc'') \<noteq> String
   \<and> type (RPCMsgId_of_QString_move ''abc'') = String
   \<and> type (assign_QString_copy RPCMsgId_default ''abc'') = String
   \<and> type (assign_QString_move RPCMsgId_default ''abc'') = String"
  by (simp add: type_def RPCMsgId_of_QString_copy_def RPCMsgId_of_QString_move_def
      assign_QString_copy_def assign_QString_move_def RPCMsgId_default_def)

section \<open>The download task: the outcome for one height\<close>

text \<open>
  C7. For the height \<open>bnum\<close>, with \<open>hash\<close> the decoded reply to \<open>getblockhash\<close> and
  \<open>rawblock\<close> the decoded reply to \<open>getblock\<close> (which is requested only when the hash has
  the width of a hash): the first handler signals \<open>errored\<close> with "invalid hash for height
  h" exactly when the hash has not that width; the second handler signals \<open>errored\<close> with
  "bad size for height h" exactly when the first \<open>HEADER_SIZE\<close> bytes of the block are
  fewer than \<open>HEADER_SIZE\<close>, with "hash mismatch for height h" exactly when the header has
  the right size and \<open>HashRev(header)\<close> differs from the hash, and hands the block to the
  Controller exactly when the header has the right size and the hashes agree. Over both
  replies, the block is handed over exactly when none of the three errors occurs.
\<close>

theorem C7_do_get_outcomes:
  "let r1 = do_get_hash_reply env bnum hash t;
       r2 = do_get_block_reply env bnum hash rawblock t;
       r = do_get_replies env bnum hash rawblock t;
       header = take (HEADER_SIZE env) rawblock;
       h = string_of_nat (unat bnum)
   in ((snd r1 = [EmitErrored] \<and> errorMessage (fst r1) = ''invalid hash for height '' @ h)
         \<longleftrightarrow> length hash \<noteq> uint256_width env)
    \<and> (snd r1 = [SubmitGetBlock hash] \<longleftrightarrow> length hash = uint256_width env)
    \<and> ((snd r2 = [EmitErrored] \<and> errorMessage (fst r2) = ''bad size for height '' @ h)
         \<longleftrightarrow> length header < HEADER_SIZE env)
    \<and> ((snd r2 = [EmitErrored] \<and> errorMessage (fst r2) = ''hash mismatch for height '' @ h)
         \<longleftrightarrow> length header = HEADER_SIZE env \<and> HashRev env header \<noteq> hash)
    \<and> (CtlPutBlock (makeShared env bnum (length rawblock) rawblock) \<in> set (snd r2)
         \<longleftrightarrow> length header = HEADER_SIZE env \<and> HashRev env header = hash)
    \<and> ((\<exists>p. CtlPutBlock p \<in> set (snd r))
         \<longleftrightarrow> length hash = uint256_width env \<and> length header = HEADER_SIZE env
              \<and> HashRev env header = hash)
    \<and> (EmitErrored \<in> set (snd r)
         \<longleftrightarrow> \<not> (length hash = uint256_width env \<and> length header = HEADER_SIZE env
              \<and> HashRev env header = hash))"
  by (auto simp: do_get_hash_reply_def do_get_block_reply_def do_get_replies_def Let_def)

text \<open>
  At height 42: a hash of 32 bytes 7 and a block of 200 bytes 9, whose header hashes to
  32 bytes 9, give \<open>errored\<close> with "hash mismatch for height 42" and no hand-over.
\<close>

theorem C7_witness:
  "snd (do_get_replies ex_tenv 42 (replicate 32 7) (replicate 200 9) (DownloadBlocksTask_ctor 40 50 2))
     = [EmitErrored]
   \<and> errorMessage (fst (do_get_replies ex_tenv 42 (replicate 32 7) (replicate 200 9)
        (DownloadBlocksTask_ctor 40 50 2))) = ''hash mismatch for height 42''
   \<and> errorCode (fst (do_get_replies ex_tenv 42 (replicate 32 7) (replicate 200 9)
        (DownloadBlocksTask_ctor 40 50 2))) = 42
   \<and> HashRev ex_tenv (take (HEADER_SIZE ex_tenv) (replicate 200 9)) \<noteq> replicate 32 7"
  using C7_do_get_outcomes [of ex_tenv 42 "replicate 32 7" "DownloadBlocksTask_ctor 40 50 2"
      "replicate 200 9"]
  by (simp add: do_get_replies_def do_get_hash_reply_def do_get_block_reply_def ex_tenv_def
      Let_def string_of_nat.simps)

section \<open>The download tasks: the partition of a range\<close>

lemma cnt_step: "x \<le> T \<Longrightarrow> 0 < S \<Longrightarrow> cnt x T S = Suc (cnt (x + S) T S)"
  by (auto simp: cnt_def not_less le_div_geq)

lemma process_frame:
  "from (fst (DownloadBlocksTask_process t)) = from t
   \<and> to (fst (DownloadBlocksTask_process t)) = to t
   \<and> stride (fst (DownloadBlocksTask_process t)) = stride t
   \<and> expectedCt (fst (DownloadBlocksTask_process t)) = expectedCt t"
  by (simp add: DownloadBlocksTask_process_def Let_def)

lemma process_done:
  "next t > to t \<Longrightarrow> next (fst (DownloadBlocksTask_process t)) = next t
     \<and> requested (Suc n) t = requested n (fst (DownloadBlocksTask_process t))"
  by (simp add: DownloadBlocksTask_process_def Let_def split: prod.splits)

lemma process_get:
  "\<not> next t > to t \<Longrightarrow> next (fst (DownloadBlocksTask_process t)) = next t + stride t
     \<and> requested (Suc n) t = next t # requested n (fst (DownloadBlocksTask_process t))"
  by (simp add: DownloadBlocksTask_process_def Let_def split: prod.splits)

lemma requested_unat:
  assumes "0 < unat (stride t)" and "unat (to t) + unat (stride t) < 2 ^ 32"
  shows "map unat (requested k t)
       = map (\<lambda>j. unat (next t) + j * unat (stride t))
           [0..<min k (cnt (unat (next t)) (unat (to t)) (unat (stride t)))]"
  using assms
proof (induction k arbitrary: t)
  case 0
  then show ?case by simp
next
  case (Suc k)
  let ?t' = "fst (DownloadBlocksTask_process t)"
  have fr: "to ?t' = to t" "stride ?t' = stride t"
    using process_frame [of t] by simp_all
  show ?case
  proof (cases "next t > to t")
    case True
    then have c0: "cnt (unat (next t)) (unat (to t)) (unat (stride t)) = 0"
      by (simp add: cnt_def word_less_nat_alt)
    from process_done [OF True, of k] have "next ?t' = next t" "requested (Suc k) t = requested k ?t'"
      by simp_all
    with Suc.IH [of ?t'] Suc.prems fr c0 show ?thesis by simp
  next
    case False
    then have le: "unat (next t) \<le> unat (to t)"
      by (simp add: word_less_nat_alt)
    with Suc.prems have nw: "unat (next t + stride t) = unat (next t) + unat (stride t)"
      by (simp add: unat_add_lem [THEN iffD1])
    from process_get [OF False, of k] have n': "next ?t' = next t + stride t"
      and r: "requested (Suc k) t = next t # requested k ?t'"
      by simp_all
    have ih: "map unat (requested k ?t')
       = map (\<lambda>j. unat (next t) + unat (stride t) + j * unat (stride t))
           [0..<min k (cnt (unat (next t) + unat (stride t)) (unat (to t)) (unat (stride t)))]"
      using Suc.IH [of ?t'] Suc.prems fr n' nw by simp
    have "map (\<lambda>j. unat (next t) + j * unat (stride t))
            [0..<min (Suc k) (cnt (unat (next t)) (unat (to t)) (unat (stride t)))]
        = unat (next t) # map (\<lambda>j. unat (next t) + unat (stride t) + j * unat (stride t))
            [0..<min k (cnt (unat (next t) + unat (stride t)) (unat (to t)) (unat (stride t)))]"
      using cnt_step [OF le Suc.prems(1)]
      by (simp add: upt_conv_Cons map_Suc_upt [symmetric] del: upt_Suc)
    with r ih show ?thesis by simp
  qed
qed

lemma ceiling_div_nat:
  assumes "0 < S" and "0 < n"
  shows "\<lceil>real n / real S\<rceil> = int ((n + S - 1) div S)"
proof (rule ceiling_unique)
  let ?q = "(n + S - 1) div S"
  have a: "?q * S \<le> n + S - 1" by simp
  have b: "n + S - 1 < ?q * S + S"
    using assms(1) by (metis add.commute dividend_less_div_times mult.commute)
  from b assms have ub: "n \<le> ?q * S" by linarith
  have qpos: "0 < ?q" using assms by (simp add: div_greater_zero_iff)
  have "(?q - 1) * S = ?q * S - S" by (simp add: diff_mult_distrib)
  with a assms have lb: "(?q - 1) * S < n" by linarith
  from ub have "real n \<le> real (?q * S)" by (simp only: of_nat_le_iff)
  then show "real n / real S \<le> of_int (int ?q)"
    using assms(1) by (simp add: field_simps)
  from lb have "real ((?q - 1) * S) < real n" by (simp only: of_nat_less_iff)
  then have "(real ?q - 1) * real S < real n" using qpos by (simp add: of_nat_diff)
  then show "of_int (int ?q) - 1 < real n / real S"
    using assms(1) by (simp add: field_simps)
qed

lemma nToDL_unat:
  fixes from' to' stride' :: u32
  assumes "from' \<le> to'" and "0 < stride'"
    and "unat to' - unat from' + unat stride' < 2 ^ 32"
  shows "unat (ucast (nToDL from' to' stride') :: u32)
       = (unat to' - unat from' + unat stride') div unat stride'"
proof -
  have m: "max stride' 1 = stride'"
    using assms(2) by (auto simp: max_def word_le_nat_alt word_less_nat_alt word_unat_eq_iff)
  have e: "((to' - from') + 1 + stride') - 1 = (to' - from') + stride'" by simp
  have s: "unat (to' - from') = unat to' - unat from'"
    using assms(1) by (simp add: unat_sub)
  have "unat ((to' - from') + stride') = unat (to' - from') + unat stride'"
    using assms(3) s by (simp add: unat_add_lem [THEN iffD1])
  with s have "unat (((to' - from') + stride') div stride') = (unat to' - unat from' + unat stride') div unat stride'"
    by (simp add: unat_div)
  then show ?thesis
    by (simp add: nToDL_def m e ucast_up_ucast_id is_up)
qed

lemma cnt_eq: "x \<le> T \<Longrightarrow> 0 < S \<Longrightarrow> cnt x T S = (T - x + S) div S"
  by (simp add: cnt_def del: diff_add_assoc2 add_diff_assoc2)

lemma requested_image:
  assumes "0 < unat (stride t)" and "unat (to t) + unat (stride t) < 2 ^ 32"
  shows "unat ` set (requested k t)
       = (\<lambda>j. unat (next t) + j * unat (stride t))
           ` {0..<min k (cnt (unat (next t)) (unat (to t)) (unat (stride t)))}"
proof -
  have "unat ` set (requested k t) = set (map unat (requested k t))" by simp
  also have "\<dots> = set (map (\<lambda>j. unat (next t) + j * unat (stride t))
           [0..<min k (cnt (unat (next t)) (unat (to t)) (unat (stride t)))])"
    by (simp only: requested_unat [OF assms])
  finally show ?thesis by simp
qed

lemma requested_distinct:
  assumes "0 < unat (stride t)" and "unat (to t) + unat (stride t) < 2 ^ 32"
  shows "distinct (requested k t)"
proof -
  have "inj_on (\<lambda>j. unat (next t) + j * unat (stride t)) A" for A
    using assms(1) by (auto simp: inj_on_def)
  then have "distinct (map unat (requested k t))"
    by (simp only: requested_unat [OF assms] distinct_map distinct_upt simp_thms)
  then show ?thesis by (simp add: distinct_map)
qed

lemma requested_length:
  assumes "0 < unat (stride t)" and "unat (to t) + unat (stride t) < 2 ^ 32"
  shows "length (requested k t) = min k (cnt (unat (next t)) (unat (to t)) (unat (stride t)))"
proof -
  have "length (requested k t) = length (map unat (requested k t))" by simp
  also have "\<dots> = min k (cnt (unat (next t)) (unat (to t)) (unat (stride t)))"
    by (simp only: requested_unat [OF assms]) simp
  finally show ?thesis .
qed

lemma ctor_fields:
  "next (DownloadBlocksTask_ctor f t s) = f \<and> to (DownloadBlocksTask_ctor f t s) = t
   \<and> stride (DownloadBlocksTask_ctor f t s) = s \<and> from (DownloadBlocksTask_ctor f t s) = f
   \<and> expectedCt (DownloadBlocksTask_ctor f t s) = ucast (nToDL f t s)"
  by (simp add: DownloadBlocksTask_ctor_def)

lemma unat_from_i:
  fixes from' :: u32
  assumes "unat from' + i < 2 ^ 32"
  shows "unat (from' + word_of_nat i) = unat from' + i"
proof -
  from assms have "i < 2 ^ 32" by simp
  then have "unat (word_of_nat i :: u32) = i" by (simp add: unat_of_nat)
  with assms show ?thesis by (simp add: unat_add_lem [THEN iffD1])
qed

lemma task_facts:
  fixes from' to' N :: u32
  assumes "from' \<le> to'" and "0 < N" and "unat N \<le> unat to' - unat from' + 1"
    and "unat to' + unat N < 2 ^ 32" and "i < unat N"
  shows "unat (next (DownloadBlocksTask_ctor (from' + word_of_nat i) to' N)) = unat from' + i"
    and "unat from' + i \<le> unat to'"
    and "unat (expectedCt (DownloadBlocksTask_ctor (from' + word_of_nat i) to' N))
          = cnt (unat from' + i) (unat to') (unat N)"
    and "from' + word_of_nat i \<le> to'"
proof -
  have le: "unat from' \<le> unat to'" using assms(1) by (simp add: word_le_nat_alt)
  with assms show b: "unat from' + i \<le> unat to'" by linarith
  have "unat to' < 2 ^ 32" using unsigned_less [of to'] by simp
  with b have "unat from' + i < 2 ^ 32" by linarith
  then have u: "unat (from' + word_of_nat i) = unat from' + i" by (rule unat_from_i)
  then show "unat (next (DownloadBlocksTask_ctor (from' + word_of_nat i) to' N)) = unat from' + i"
    by (simp add: ctor_fields)
  from u b show w: "from' + word_of_nat i \<le> to'" by (simp add: word_le_nat_alt)
  have "unat to' - unat (from' + word_of_nat i) + unat N < 2 ^ 32"
    using assms(4) by linarith
  from nToDL_unat [OF w assms(2) this] u b assms(2)
  show "unat (expectedCt (DownloadBlocksTask_ctor (from' + word_of_nat i) to' N))
          = cnt (unat from' + i) (unat to') (unat N)"
    by (simp add: ctor_fields cnt_eq word_less_nat_alt)
qed

text \<open>
  C4. A range \<open>[from, to]\<close> is split among \<open>N\<close> download tasks, task \<open>i\<close> made with
  \<open>(from + i, to, N)\<close>, where \<open>1 \<le> N \<le> to - from + 1\<close> and \<open>to + N\<close> fits in an
  \<open>unsigned\<close> (as in state GetBlocks, where \<open>to\<close> comes from a non-negative \<open>int\<close> and
  \<open>N\<close> is at most the number of blocks). Then the heights requested by two different
  tasks are disjoint, whatever number of calls of \<open>process()\<close> each has had; the heights
  the tasks request in their \<open>expectedCt\<close> requests are together exactly \<open>from, ..., to\<close>;
  and each task requests no height twice, makes \<open>expectedCt\<close> requests and no more, has
  \<open>expectedCt = \<lceil>(to - from\<^sub>i + 1) / N\<rceil>\<close>, and passes the FatalAssert of its constructor.
\<close>

theorem C4_stride_partition:
  fixes from' to' N :: u32
  assumes "from' \<le> to'" and "0 < N" and "unat N \<le> unat to' - unat from' + 1"
    and "unat to' + unat N < 2 ^ 32"
  shows "(\<forall>i<unat N. \<forall>j<unat N. i \<noteq> j \<longrightarrow>
            set (requested k (DownloadBlocksTask_ctor (from' + word_of_nat i) to' N))
            \<inter> set (requested k' (DownloadBlocksTask_ctor (from' + word_of_nat j) to' N)) = {})
       \<and> (\<Union>i<unat N. set (requested
              (unat (expectedCt (DownloadBlocksTask_ctor (from' + word_of_nat i) to' N)))
              (DownloadBlocksTask_ctor (from' + word_of_nat i) to' N))) = {from'..to'}
       \<and> (\<forall>i<unat N.
            distinct (requested k (DownloadBlocksTask_ctor (from' + word_of_nat i) to' N))
            \<and> length (requested k (DownloadBlocksTask_ctor (from' + word_of_nat i) to' N))
                = min k (unat (expectedCt (DownloadBlocksTask_ctor (from' + word_of_nat i) to' N)))
            \<and> int (unat (expectedCt (DownloadBlocksTask_ctor (from' + word_of_nat i) to' N)))
                = \<lceil>real (unat to' - unat (from' + word_of_nat i) + 1) / real (unat N)\<rceil>
            \<and> DownloadBlocksTask_ctor_ok (from' + word_of_nat i) to' N)"
proof -
  let ?F = "unat from'" and ?T = "unat to'" and ?S = "unat N"
  let ?task = "\<lambda>i. DownloadBlocksTask_ctor (from' + word_of_nat i) to' N"
  have S: "0 < ?S" using assms(2) by (simp add: word_less_nat_alt)
  have st: "0 < unat (stride (?task i))" "unat (to (?task i)) + unat (stride (?task i)) < 2 ^ 32" for i
    using S assms(4) by (simp_all add: ctor_fields)
  have img: "unat ` set (requested k (?task i))
       = (\<lambda>j. ?F + i + j * ?S) ` {0..<min k (cnt (?F + i) ?T ?S)}" if iS: "i < ?S" for i k
    using requested_image [where t = "?task i" and k = k, OF st] task_facts(1) [OF assms iS]
    by (simp add: ctor_fields)
  have disj: "set (requested k (?task i)) \<inter> set (requested k' (?task j)) = {}"
    if ij: "i < ?S" "j < ?S" "i \<noteq> j" for i j
  proof (rule ccontr)
    assume "set (requested k (?task i)) \<inter> set (requested k' (?task j)) \<noteq> {}"
    then obtain w where w: "w \<in> set (requested k (?task i))" "w \<in> set (requested k' (?task j))"
      by auto
    from w(1) have "unat w \<in> unat ` set (requested k (?task i))" by simp
    then obtain a where a: "unat w = ?F + i + a * ?S" unfolding img [OF ij(1)] by auto
    from w(2) have "unat w \<in> unat ` set (requested k' (?task j))" by simp
    then obtain b where b: "unat w = ?F + j + b * ?S" unfolding img [OF ij(2)] by auto
    from a b have "(i + a * ?S) mod ?S = (j + b * ?S) mod ?S" by simp
    with ij show False by simp
  qed
  have uni: "(\<Union>i<?S. set (requested (unat (expectedCt (?task i))) (?task i))) = {from'..to'}"
  proof (rule set_eqI)
    fix w :: u32
    show "w \<in> (\<Union>i<?S. set (requested (unat (expectedCt (?task i))) (?task i)))
        \<longleftrightarrow> w \<in> {from'..to'}"
    proof
      assume "w \<in> (\<Union>i<?S. set (requested (unat (expectedCt (?task i))) (?task i)))"
      then obtain i where i: "i < ?S" "w \<in> set (requested (unat (expectedCt (?task i))) (?task i))"
        by auto
      from i(2) have "unat w \<in> unat ` set (requested (unat (expectedCt (?task i))) (?task i))"
        by simp
      then obtain a where a0: "unat w = ?F + i + a * ?S"
          "a \<in> {0..<min (unat (expectedCt (?task i))) (cnt (?F + i) ?T ?S)}"
        unfolding img [OF i(1)] by blast
      then have a: "unat w = ?F + i + a * ?S" "a < cnt (?F + i) ?T ?S" by simp_all
      from task_facts(2) [OF assms i(1)] a(2) S have "a \<le> (?T - (?F + i)) div ?S"
        by (simp add: cnt_def)
      then have "a * ?S \<le> ?T - (?F + i)"
        using S by (simp add: less_eq_div_iff_mult_less_eq)
      with a(1) task_facts(2) [OF assms i(1)] have "?F \<le> unat w" "unat w \<le> ?T" by linarith+
      then show "w \<in> {from'..to'}" by (simp add: word_le_nat_alt)
    next
      assume "w \<in> {from'..to'}"
      then have r: "?F \<le> unat w" "unat w \<le> ?T" by (simp_all add: word_le_nat_alt)
      define d where "d = unat w - ?F"
      define i where "i = d mod ?S"
      define a where "a = d div ?S"
      have i: "i < ?S" using S by (simp add: i_def)
      have d: "d = i + a * ?S" by (simp add: i_def a_def)
      with r have w: "unat w = ?F + i + a * ?S" by (simp add: d_def)
      with r have "a * ?S \<le> ?T - (?F + i)" by linarith
      then have "a \<le> (?T - (?F + i)) div ?S"
        using S by (simp add: less_eq_div_iff_mult_less_eq)
      with task_facts(2) [OF assms i] have "a < cnt (?F + i) ?T ?S"
        by (simp add: cnt_def)
      with w have "unat w \<in> (\<lambda>j. ?F + i + j * ?S) `
          {0..<min (unat (expectedCt (?task i))) (cnt (?F + i) ?T ?S)}"
        using task_facts(3) [OF assms i] by auto
      then have "unat w \<in> unat ` set (requested (unat (expectedCt (?task i))) (?task i))"
        unfolding img [OF i] .
      then have "w \<in> set (requested (unat (expectedCt (?task i))) (?task i))"
        by (auto dest: word_unat_eq_iff [THEN iffD2])
      with i show "w \<in> (\<Union>i<?S. set (requested (unat (expectedCt (?task i))) (?task i)))"
        by auto
    qed
  qed
  have each: "distinct (requested k (?task i))
            \<and> length (requested k (?task i)) = min k (unat (expectedCt (?task i)))
            \<and> int (unat (expectedCt (?task i)))
                = \<lceil>real (?T - unat (from' + word_of_nat i) + 1) / real ?S\<rceil>
            \<and> DownloadBlocksTask_ctor_ok (from' + word_of_nat i) to' N" if iS: "i < ?S" for i
  proof -
    note tf = task_facts [OF assms iS]
    have u: "unat (from' + word_of_nat i) = ?F + i" using tf(1) by (simp add: ctor_fields)
    have "length (requested k (?task i)) = min k (unat (expectedCt (?task i)))"
      using requested_length [where t = "?task i" and k = k, OF st] tf(1) tf(3) by (simp add: ctor_fields)
    moreover have "int (unat (expectedCt (?task i))) = \<lceil>real (?T - (?F + i) + 1) / real ?S\<rceil>"
      using ceiling_div_nat [OF S, of "?T - (?F + i) + 1"] tf(2) tf(3) S
      by (simp add: cnt_eq del: diff_add_assoc2 add_diff_assoc2)
    moreover have "DownloadBlocksTask_ctor_ok (from' + word_of_nat i) to' N"
      using tf(4) assms(2) by (simp add: DownloadBlocksTask_ctor_ok_def)
    ultimately show ?thesis
      using requested_distinct [where t = "?task i" and k = k, OF st] u by simp
  qed
  from disj uni each show ?thesis by blast
qed

text \<open>
  Two tasks of stride 2 over the heights 1 to 4: the first requests 1 and 3, the second
  2 and 4, each expects 2 blocks.
\<close>

lemma ex_requested:
  "requested 5 (DownloadBlocksTask_ctor 1 4 2) = [1, 3]"
  "requested 5 (DownloadBlocksTask_ctor 2 4 2) = [2, 4]"
  "expectedCt (DownloadBlocksTask_ctor 1 4 2) = 2"
  "expectedCt (DownloadBlocksTask_ctor 2 4 2) = 2"
  by code_simp+

theorem C4_witness:
  "(1 :: u32) \<le> 4 \<and> (0 :: u32) < 2 \<and> unat (2 :: u32) \<le> unat (4 :: u32) - unat (1 :: u32) + 1
   \<and> unat (4 :: u32) + unat (2 :: u32) < 2 ^ 32
   \<and> requested 5 (DownloadBlocksTask_ctor 1 4 2) = [1, 3]
   \<and> requested 5 (DownloadBlocksTask_ctor 2 4 2) = [2, 4]
   \<and> expectedCt (DownloadBlocksTask_ctor 1 4 2) = 2
   \<and> expectedCt (DownloadBlocksTask_ctor 2 4 2) = 2
   \<and> (\<Union>i<unat (2 :: u32). set (requested
              (unat (expectedCt (DownloadBlocksTask_ctor (1 + word_of_nat i) 4 2)))
              (DownloadBlocksTask_ctor (1 + word_of_nat i) 4 2))) = {1..4}"
proof -
  have h: "(1 :: u32) \<le> 4" "(0 :: u32) < 2"
    "unat (2 :: u32) \<le> unat (4 :: u32) - unat (1 :: u32) + 1"
    "unat (4 :: u32) + unat (2 :: u32) < 2 ^ 32"
    by simp_all
  from C4_stride_partition [OF h, of 5 5]
  have u: "(\<Union>i<unat (2 :: u32). set (requested
              (unat (expectedCt (DownloadBlocksTask_ctor (1 + word_of_nat i) 4 2)))
              (DownloadBlocksTask_ctor (1 + word_of_nat i) 4 2))) = {1..4}"
    by (rule conjunct2 [THEN conjunct1])
  from h u ex_requested show ?thesis
    by (intro conjI)
qed

section \<open>The download task: termination of a run\<close>
























section \<open>The Controller: messages that are dropped\<close>

lemma length_ex_hdr: "length (ex_hdr x) = 80"
  by (simp add: ex_hdr_def)

lemma hd_ex_hdr: "hd (ex_hdr x) = x"
  by (simp add: ex_hdr_def)

text \<open>
  C6. A \<open>putBlock\<close> message that arrives when no state machine exists, or whose task is no
  longer in the Controller's task set, or when the state is Failure, leaves the Controller
  as it is: \<open>ppBlocks\<close>, \<open>ppBlkHtNext\<close>, the stored headers, the state and everything else.
\<close>

theorem C6_putBlock_dropped:
  assumes "sm c = None \<or> isTaskDeleted c task \<or> (\<exists>s. sm c = Some s \<and> state s = Failure)"
  shows "putBlock task p c = c"
  using assms by (auto simp: putBlock_def split: option.splits)

text \<open>
  In the example round, the block of height 1 sent by a task 7 that the Controller does not
  hold is dropped; the same block sent by task 1 is taken.
\<close>

theorem C6_witness:
  "isTaskDeleted ex_dl 7 \<and> putBlock 7 (ex_blk 1) ex_dl = ex_dl
   \<and> putBlock 1 (ex_blk 1) ex_dl \<noteq> ex_dl"
  using C6_putBlock_dropped [of ex_dl 7 "ex_blk 1"]
  by (simp add: isTaskDeleted_def ex_dl_def ex_ctl_def putBlock_def AGAIN_def ex_sm_def
      StateMachine_new_def)

section \<open>The Controller: the loop of \<open>process_DownloadingBlocks\<close>\<close>

lemma consecutive_refl: "consecutive c c"
  by (simp add: consecutive_def)

lemma consecutive_trans:
  assumes "consecutive a b" and "consecutive b c"
  shows "consecutive a c"
proof -
  from assms have le: "length (st_headers a) \<le> length (st_headers b)"
      "length (st_headers b) \<le> length (st_headers c)"
    by (simp_all add: consecutive_def)
  then have "[length (st_headers a)..<length (st_headers c)]
      = [length (st_headers a)..<length (st_headers b)] @ [length (st_headers b)..<length (st_headers c)]"
    by (metis le_Suc_ex upt_add_eq_append)
  with assms le show ?thesis
    by (simp add: consecutive_def)
qed

lemma consecutive_same:
  "st_headers c' = st_headers c \<Longrightarrow> appended c' = appended c \<Longrightarrow> consecutive a c \<Longrightarrow> consecutive a c'"
  by (simp add: consecutive_def)

lemma pvab_cases:
  assumes "sm c = Some s"
  shows "(\<exists>c'. process_VerifyAndAddBlock env ppb c = (False, c')
            \<and> st_headers c' = st_headers c \<and> appended c' = appended c
            \<and> pollTimer c' = pollTimer c \<and> tasks c' = tasks c
            \<and> (fatal c' \<or> sm c' = Some (s\<lparr>state := Failure\<rparr>)))
       \<or> (\<exists>c' h. process_VerifyAndAddBlock env ppb c = (True, c')
            \<and> st_headers c' = st_headers c @ [h] \<and> appended c' = appended c @ [height ppb]
            \<and> pollTimer c' = pollTimer c \<and> tasks c' = tasks c
            \<and> sm c' = Some s \<and> fatal c' = fatal c)"
  using assms
  by (auto simp: process_VerifyAndAddBlock_def AGAIN_def storage_save_def Let_def split: prod.splits)

lemma drain_post_trans:
  "consecutive c c1 \<Longrightarrow> pollTimer c1 = pollTimer c \<Longrightarrow> tasks c1 = tasks c
   \<Longrightarrow> drain_post c1 b c' \<Longrightarrow> drain_post c b c'"
  unfolding drain_post_def using consecutive_trans by metis

lemma drain_stop:
  assumes "sm c = Some s" and "ppBlocks s = [] \<or> (\<exists>k p r. ppBlocks s = (k, p) # r \<and> k \<noteq> ppBlkHtNext s)"
  shows "drain env c = (True, c)"
  using assms by (subst drain.simps) auto

lemma drain_assert:
  assumes "sm c = Some s" and "ppBlocks s = (ppBlkHtNext s, p) # r" and "height p \<noteq> ppBlkHtNext s"
  shows "drain env c = (False, c\<lparr>fatal := True\<rparr>)"
  using assms by (subst drain.simps) simp

lemma drain_unfold:
  assumes "sm c = Some s" and "ppBlocks s = (ppBlkHtNext s, p) # r" and "height p = ppBlkHtNext s"
    and "process_VerifyAndAddBlock env p
           (c\<lparr>sm := Some (s\<lparr>ppBlkHtNext := ppBlkHtNext s + 1, ppBlocks := r\<rparr>)\<rparr>) = (ok, c')"
  shows "drain env c = (if ok then drain env c' else (False, c'))"
  using assms by (subst drain.simps) simp

lemma drain_inv:
  assumes "sm c = Some s" and "state s = DownloadingBlocks"
    and "ppBlkHtNext s = word_of_nat (length (st_headers c))"
  shows "drain_post c (fst (drain env c)) (snd (drain env c))"
  using assms
proof (induction env c arbitrary: s rule: drain.induct)
  case (1 env c)
  note sm = \<open>sm c = Some s\<close> and st = \<open>state s = DownloadingBlocks\<close>
    and nx = \<open>ppBlkHtNext s = word_of_nat (length (st_headers c))\<close>
  have stay: "drain_post c True c"
    using sm st nx by (simp add: drain_post_def consecutive_refl)
  show ?case
  proof (cases "ppBlocks s = [] \<or> (\<exists>k p r. ppBlocks s = (k, p) # r \<and> k \<noteq> ppBlkHtNext s)")
    case True
    from drain_stop [OF sm True] stay show ?thesis by simp
  next
    case False
    then obtain ppb rest where pp: "ppBlocks s = (ppBlkHtNext s, ppb) # rest"
      by (cases "ppBlocks s") auto
    show ?thesis
    proof (cases "height ppb = ppBlkHtNext s")
      case False
      have "drain_post c False (c\<lparr>fatal := True\<rparr>)"
        by (simp add: drain_post_def consecutive_def)
      with drain_assert [OF sm pp False] show ?thesis by simp
    next
      case h: True
      let ?s1 = "s\<lparr>ppBlkHtNext := ppBlkHtNext s + 1, ppBlocks := rest\<rparr>"
      let ?c1 = "c\<lparr>sm := Some ?s1\<rparr>"
      obtain ok c' where r: "process_VerifyAndAddBlock env ppb ?c1 = (ok, c')"
        by (cases "process_VerifyAndAddBlock env ppb ?c1")
      note d = drain_unfold [OF sm pp h r]
      have sm1: "sm ?c1 = Some ?s1" by simp
      show ?thesis
      proof (cases ok)
        case False
        with pvab_cases [OF sm1, of env ppb] r
        have "st_headers c' = st_headers c" "appended c' = appended c"
             "pollTimer c' = pollTimer c" "tasks c' = tasks c"
             "fatal c' \<or> sm c' = Some (?s1\<lparr>state := Failure\<rparr>)"
          by auto
        then have "drain_post c False c'"
          by (auto simp: drain_post_def consecutive_def)
        with d False show ?thesis by simp
      next
        case True
        with pvab_cases [OF sm1, of env ppb] r
        obtain h' where f: "st_headers c' = st_headers c @ [h']"
             "appended c' = appended c @ [height ppb]"
             "pollTimer c' = pollTimer c" "tasks c' = tasks c"
             "sm c' = Some ?s1"
          by auto
        have step: "consecutive c c'"
          using f h nx by (simp add: consecutive_def)
        have nxt: "ppBlkHtNext ?s1 = word_of_nat (length (st_headers c'))"
          using f nx by simp
        have st1: "state ?s1 = DownloadingBlocks"
          using st by simp
        have "drain_post c' (fst (drain env c')) (snd (drain env c'))"
          using "1.IH" [OF sm pp refl refl _ r [symmetric] _ f(5) st1 nxt] h True by simp
        then have "drain_post c (fst (drain env c')) (snd (drain env c'))"
          by (rule drain_post_trans [OF step f(3) f(4)])
        with d True show ?thesis by simp
      qed
    qed
  qed
qed

lemma ucast_base: "(ucast (word_of_nat n :: u64) :: u32) = word_of_nat n"
  by (simp add: ucast_eq unsigned_of_nat take_bit_of_nat word_of_nat_eq_iff min_def)

lemma fold_add_DLHeaderTask_frame:
  "sm (foldl (\<lambda>c' i. add_DLHeaderTask (f i) t n c') c xs) = sm c
   \<and> st_headers (foldl (\<lambda>c' i. add_DLHeaderTask (f i) t n c') c xs) = st_headers c
   \<and> appended (foldl (\<lambda>c' i. add_DLHeaderTask (f i) t n c') c xs) = appended c
   \<and> pollTimer (foldl (\<lambda>c' i. add_DLHeaderTask (f i) t n c') c xs) = pollTimer c"
  by (induction xs arbitrary: c) (simp_all add: add_DLHeaderTask_def newTask_def Let_def)

lemma drain_frame:
  "pollTimer (snd (drain env c)) = pollTimer c \<and> (sm c \<noteq> None \<longrightarrow> sm (snd (drain env c)) \<noteq> None)"
proof (induction env c rule: drain.induct)
  case (1 env c)
  show ?case
  proof (cases "sm c")
    case None
    then have "drain env c = (True, c)" by (subst drain.simps) simp
    then show ?thesis by simp
  next
    case (Some s)
    show ?thesis
    proof (cases "ppBlocks s = [] \<or> (\<exists>k p r. ppBlocks s = (k, p) # r \<and> k \<noteq> ppBlkHtNext s)")
      case True
      from drain_stop [OF Some True] show ?thesis by simp
    next
      case False
      then obtain ppb rest where pp: "ppBlocks s = (ppBlkHtNext s, ppb) # rest"
        by (cases "ppBlocks s") auto
      show ?thesis
      proof (cases "height ppb = ppBlkHtNext s")
        case False
        from drain_assert [OF Some pp False] Some show ?thesis by simp
      next
        case h: True
        let ?s1 = "s\<lparr>ppBlkHtNext := ppBlkHtNext s + 1, ppBlocks := rest\<rparr>"
        let ?c1 = "c\<lparr>sm := Some ?s1\<rparr>"
        obtain ok c' where r: "process_VerifyAndAddBlock env ppb ?c1 = (ok, c')"
          by (cases "process_VerifyAndAddBlock env ppb ?c1")
        note d = drain_unfold [OF Some pp h r]
        have sm1: "sm ?c1 = Some ?s1" by simp
        from process_VerifyAndAddBlock_ppBlocks [OF r sm1]
        have sm': "sm c' \<noteq> None" by auto
        from pvab_cases [OF sm1, of env ppb] r have pt: "pollTimer c' = pollTimer c" by auto
        show ?thesis
        proof (cases ok)
          case False
          with d sm' pt show ?thesis by simp
        next
          case True
          have "pollTimer (snd (drain env c')) = pollTimer c'
              \<and> (sm c' \<noteq> None \<longrightarrow> sm (snd (drain env c')) \<noteq> None)"
            using "1.IH" [OF Some pp refl refl _ r [symmetric] True] h by simp
          with d True sm' pt show ?thesis by simp
        qed
      qed
    qed
  qed
qed

text \<open>
  C5. When the header verifier rejects the header of a block, \<open>process_VerifyAndAddBlock\<close>
  returns false and leaves the Controller as it was but for the state, now Failure, and
  one queued call of \<open>process()\<close>: the verifier is back at the state it had before the
  call and no header has been added to the header vector. In the loop of
  \<open>process_DownloadingBlocks\<close>, with that block at the head of \<open>ppBlocks\<close>, the block is
  taken out, \<open>ppBlkHtNext\<close> is advanced and the function returns with exactly that.
\<close>

theorem C5_verifier_rejects:
  assumes "sm c = Some s" and "\<not> fst (verify env (st_verifier c) (header ppb))"
  shows "process_VerifyAndAddBlock env ppb c
           = (False, c\<lparr>sm := Some (s\<lparr>state := Failure\<rparr>), ctl_again := ctl_again c + 1\<rparr>)
       \<and> st_verifier (snd (process_VerifyAndAddBlock env ppb c)) = st_verifier c
       \<and> st_headers (snd (process_VerifyAndAddBlock env ppb c)) = st_headers c
       \<and> (ppBlocks s = (ppBlkHtNext s, ppb) # rest \<and> height ppb = ppBlkHtNext s
           \<longrightarrow> process_DownloadingBlocks env c
                 = c\<lparr>sm := Some (s\<lparr>ppBlkHtNext := ppBlkHtNext s + 1, ppBlocks := rest,
                                   state := Failure\<rparr>),
                      ctl_again := ctl_again c + 1\<rparr>)"
proof -
  have a: "process_VerifyAndAddBlock env ppb c
           = (False, c\<lparr>sm := Some (s\<lparr>state := Failure\<rparr>), ctl_again := ctl_again c + 1\<rparr>)"
    using assms by (auto simp: process_VerifyAndAddBlock_def AGAIN_def Let_def split: prod.splits)
  have b: "process_DownloadingBlocks env c
                 = c\<lparr>sm := Some (s\<lparr>ppBlkHtNext := ppBlkHtNext s + 1, ppBlocks := rest,
                                   state := Failure\<rparr>),
                      ctl_again := ctl_again c + 1\<rparr>"
    if pp: "ppBlocks s = (ppBlkHtNext s, ppb) # rest" and h: "height ppb = ppBlkHtNext s"
  proof -
    let ?s1 = "s\<lparr>ppBlkHtNext := ppBlkHtNext s + 1, ppBlocks := rest\<rparr>"
    let ?c1 = "c\<lparr>sm := Some ?s1\<rparr>"
    have r: "process_VerifyAndAddBlock env ppb ?c1
           = (False, ?c1\<lparr>sm := Some (?s1\<lparr>state := Failure\<rparr>), ctl_again := ctl_again ?c1 + 1\<rparr>)"
      using assms(2)
      by (auto simp: process_VerifyAndAddBlock_def AGAIN_def Let_def split: prod.splits)
    from drain_unfold [OF assms(1) pp h r] show ?thesis
      by (simp add: process_DownloadingBlocks_def)
  qed
  from a b show ?thesis by simp
qed

text \<open>
  In the example round the verifier holds the header of height 0 and rejects the header of
  the block of height 2; the rejected header does not stay in the verifier, and the header
  vector keeps its one header.
\<close>

theorem C5_witness:
  "sm ex_dl = Some ex_sm
   \<and> verify ex_env (st_verifier ex_dl) (header (ex_blk 2)) = (False, ex_hdr 2)
   \<and> fst (process_VerifyAndAddBlock ex_env (ex_blk 2) ex_dl) = False
   \<and> st_verifier (snd (process_VerifyAndAddBlock ex_env (ex_blk 2) ex_dl)) = ex_hdr 0
   \<and> st_headers (snd (process_VerifyAndAddBlock ex_env (ex_blk 2) ex_dl)) = [ex_hdr 0]
   \<and> map_option state (sm (snd (process_VerifyAndAddBlock ex_env (ex_blk 2) ex_dl))) = Some Failure"
  using C5_verifier_rejects [of ex_dl ex_sm ex_env "ex_blk 2" "[]"]
  by (simp add: ex_dl_def ex_ctl_def ex_env_def ex_verify_def ex_blk_def hd_ex_hdr length_ex_hdr)

section \<open>The Controller: the ordered map \<open>ppBlocks\<close>\<close>

text \<open>
  The list that stands for the \<open>std::map\<close> keeps its keys strictly ascending under
  \<open>sm->ppBlocks[k] = v\<close>, which acts on it as the update of a map; so the head of the list
  is \<open>begin()\<close>, the entry of the least key. In every state the Controller reaches,
  each block in \<open>ppBlocks\<close> is stored under its own height: the FatalAssert in the loop
  of \<open>process_DownloadingBlocks\<close> does not fail.
\<close>

lemma map_assign_keys: "fst ` set (map_assign k v m) = insert k (fst ` set m)"
  by (induction k v m rule: map_assign.induct) (simp_all add: insert_commute)

lemma map_assign_sorted:
  "sorted_wrt (<) (map fst m) \<Longrightarrow> sorted_wrt (<) (map fst (map_assign k v m))"
proof (induction m)
  case Nil
  then show ?case by simp
next
  case (Cons a m)
  obtain k' v' where a: "a = (k', v')" by (cases a)
  from Cons.prems have rest: "sorted_wrt (<) (map fst m)" and lt: "\<forall>x\<in>set m. k' < fst x"
    by (simp_all add: a)
  have "\<forall>x\<in>fst ` set (map_assign k v m). k' < x" if "\<not> k < k'" "k \<noteq> k'"
    using that lt by (auto simp: map_assign_keys)
  with Cons.IH [OF rest] Cons.prems show ?case
    by (auto simp: a)
qed

lemma map_assign_list_all:
  "list_all P m \<Longrightarrow> P (k, v) \<Longrightarrow> list_all P (map_assign k v m)"
  by (induction k v m rule: map_assign.induct) auto

lemma map_assign_map_of:
  "sorted_wrt (<) (map fst m) \<Longrightarrow> map_of (map_assign k v m) = (map_of m)(k \<mapsto> v)"
proof (induction m)
  case Nil
  then show ?case by simp
next
  case (Cons a m)
  obtain k' v' where a: "a = (k', v')" by (cases a)
  from Cons.prems have rest: "sorted_wrt (<) (map fst m)" by (simp add: a)
  from Cons.IH [OF rest] show ?case
    by (auto simp: a fun_upd_twist)
qed

lemma drain_ppBlocks:
  assumes "sm c = Some s"
  shows "\<exists>s' pre. sm (snd (drain env c)) = Some s' \<and> ppBlocks s = pre @ ppBlocks s'"
  using assms
proof (induction env c arbitrary: s rule: drain.induct)
  case (1 env c)
  note sm = \<open>sm c = Some s\<close>
  show ?case
  proof (cases "ppBlocks s = [] \<or> (\<exists>k p r. ppBlocks s = (k, p) # r \<and> k \<noteq> ppBlkHtNext s)")
    case True
    from drain_stop [OF sm True] sm show ?thesis by simp
  next
    case False
    then obtain ppb rest where pp: "ppBlocks s = (ppBlkHtNext s, ppb) # rest"
      by (cases "ppBlocks s") auto
    show ?thesis
    proof (cases "height ppb = ppBlkHtNext s")
      case False
      from drain_assert [OF sm pp False] sm show ?thesis by simp
    next
      case h: True
      let ?s1 = "s\<lparr>ppBlkHtNext := ppBlkHtNext s + 1, ppBlocks := rest\<rparr>"
      let ?c1 = "c\<lparr>sm := Some ?s1\<rparr>"
      obtain ok c' where r: "process_VerifyAndAddBlock env ppb ?c1 = (ok, c')"
        by (cases "process_VerifyAndAddBlock env ppb ?c1")
      note d = drain_unfold [OF sm pp h r]
      have sm1: "sm ?c1 = Some ?s1" by simp
      from process_VerifyAndAddBlock_ppBlocks [OF r sm1]
      obtain s1' where s1': "sm c' = Some s1'" "ppBlocks s1' = rest" by auto
      show ?thesis
      proof (cases ok)
        case False
        with d s1' pp show ?thesis by simp
      next
        case True
        from "1.IH" [OF sm pp refl refl _ r [symmetric] True s1'(1)] h
        obtain s' pre where ih: "sm (snd (drain env c')) = Some s'" "ppBlocks s1' = pre @ ppBlocks s'"
          by auto
        with s1' pp have "ppBlocks s = ((ppBlkHtNext s, ppb) # pre) @ ppBlocks s'" by simp
        with ih(1) d True show ?thesis by (simp del: append_Cons)
      qed
    qed
  qed
qed

lemma ppBlocks_ok_suffix:
  assumes "sorted_wrt (<) (map fst (pre @ m))" and "list_all P (pre @ m)"
  shows "sorted_wrt (<) (map fst m) \<and> list_all P m"
  using assms by (simp add: sorted_wrt_append)

lemma process_DownloadingBlocks_ppBlocks_ok:
  assumes "ppBlocks_ok c"
  shows "ppBlocks_ok (process_DownloadingBlocks env c)"
proof (cases "sm c")
  case None
  then have "drain env c = (True, c)" by (subst drain.simps) simp
  with None show ?thesis by (simp add: process_DownloadingBlocks_def ppBlocks_ok_def)
next
  case (Some s)
  from drain_ppBlocks [OF Some, of env]
  obtain s' pre where s': "sm (snd (drain env c)) = Some s'" "ppBlocks s = pre @ ppBlocks s'"
    by auto
  from assms Some s'(2) have "sorted_wrt (<) (map fst (pre @ ppBlocks s'))"
    "list_all (\<lambda>kp. height (snd kp) = fst kp) (pre @ ppBlocks s')"
    by (simp_all add: ppBlocks_ok_def)
  then have "sorted_wrt (<) (map fst (ppBlocks s'))
      \<and> list_all (\<lambda>kp. height (snd kp) = fst kp) (ppBlocks s')"
    by (rule ppBlocks_ok_suffix)
  with s'(1) show ?thesis
    by (cases "drain env c")
       (auto simp: process_DownloadingBlocks_def ppBlocks_ok_def AGAIN_def split: bool.splits)
qed

lemma step_ppBlocks_ok:
  assumes "ppBlocks_ok c"
  shows "ppBlocks_ok (step env c ev)"
proof -
  have pr: "ppBlocks_ok (process env b c')" if "ppBlocks_ok c'" for b c'
  proof -
    let ?c1 = "stopTimer c'"
    let ?s = "case sm ?c1 of None \<Rightarrow> StateMachine_new env | Some s' \<Rightarrow> s'"
    let ?c = "?c1\<lparr>sm := Some ?s\<rparr>"
    have ok: "ppBlocks_ok ?c"
      using that by (auto simp: ppBlocks_ok_def stopTimer_def StateMachine_new_def split: option.splits)
    show ?thesis
    proof (cases "state ?s")
      case Begin
      with ok show ?thesis by (simp add: process_def Let_def newTask_def ppBlocks_ok_def)
    next
      case GetBlocks
      with ok show ?thesis
        by (simp add: process_def Let_def process_GetBlocks_def fold_add_DLHeaderTask_frame
            ppBlocks_ok_def)
    next
      case DownloadingBlocks
      with process_DownloadingBlocks_ppBlocks_ok [OF ok, of env] show ?thesis
        by (simp add: process_def Let_def)
    next
      case FinishedDL
      then show ?thesis
        by (simp add: process_def Let_def ppBlocks_ok_def storage_save_def AGAIN_def)
    next
      case End
      then show ?thesis
        by (simp add: process_def Let_def ppBlocks_ok_def callOnTimerSoonNoRepeat_def)
    next
      case Failure
      then show ?thesis
        by (simp add: process_def Let_def ppBlocks_ok_def callOnTimerSoonNoRepeat_def emit_def)
    next
      case IBD
      then show ?thesis
        by (simp add: process_def Let_def ppBlocks_ok_def callOnTimerSoonNoRepeat_def emit_def)
    qed
  qed
  have upd: "ppBlocks_ok (c\<lparr>ctl_again := n\<rparr>)" "ppBlocks_ok (c\<lparr>pollTimer := t\<rparr>)" for n t
    using assms by (simp_all add: ppBlocks_ok_def)
  show ?thesis
  proof (cases ev)
    case (PutBlock task p)
    with assms show ?thesis
      by (auto simp: step_def putBlock_def AGAIN_def ppBlocks_ok_def map_assign_sorted
          map_assign_list_all split: option.splits)
  next
    case ProcessAgain
    with assms pr [OF upd(1)] show ?thesis by (simp add: step_def)
  next
    case PollTimeout
    with assms pr [OF upd(2)] upd(2) show ?thesis
      by (simp add: step_def pollTimerCallback_def split: option.splits)
  next
    case (ChainInfoSuccess task info b)
    with assms show ?thesis
      by (auto simp: step_def on_GetChainInfo_success_def AGAIN_def emit_def Let_def
          ppBlocks_ok_def split: option.splits)
  next
    case ProbeErrored
    with assms show ?thesis
      by (auto simp: step_def genericTaskErrored_def AGAIN_def ppBlocks_ok_def split: option.splits)
  next
    case (DLTaskErrored task)
    with assms show ?thesis
      by (auto simp: step_def on_DLTask_errored_def genericTaskErrored_def AGAIN_def
          ppBlocks_ok_def split: option.splits)
  next
    case (TaskFinished task)
    with assms show ?thesis
      by (auto simp: step_def rmTask_def ppBlocks_ok_def split: option.splits)
  qed
qed

lemma run_ppBlocks_ok: "ppBlocks_ok c \<Longrightarrow> ppBlocks_ok (run env c evs)"
  by (induction evs arbitrary: c) (simp_all add: run_def step_ppBlocks_ok)

section \<open>The Controller: state GetBlocks\<close>

text \<open>
  What state GetBlocks leaves: the state DownloadingBlocks with the next height awaited
  equal to \<open>startheight\<close>, the size of the header vector; and, when the height reported
  by bitcoind is a non-negative \<open>int\<close> not below the size of the header vector, one
  download task for each \<open>i\<close> below \<open>N = min(num, DL_CONCURRENCY)\<close>, made with
  \<open>(base + i, ht, N)\<close>, where \<open>N\<close> is at least 1 and at most the number of blocks, and
  \<open>ht + N\<close> fits in an \<open>unsigned\<close>.
\<close>

lemma GetBlocks_leaves:
  assumes "0 \<le> ht s" and "(word_of_int (ht s + 1) :: u64) - word_of_nat (length (st_headers c)) > 0"
  shows "\<exists>s'. sm (process_GetBlocks s c) = Some s' \<and> state s' = DownloadingBlocks
           \<and> ppBlkHtNext s' = startheight s'
           \<and> startheight s' = word_of_nat (length (st_headers (process_GetBlocks s c)))
           \<and> st_headers (process_GetBlocks s c) = st_headers c"
  using assms
  by (simp add: process_GetBlocks_def Let_def fold_add_DLHeaderTask_frame ucast_base)

lemma fold_add_DLHeaderTask_tasks:
  "tasks (foldl (\<lambda>c' i. add_DLHeaderTask (f i) t n c') c [0..<m])
     = tasks c @ map (\<lambda>i. (nextTask c + i, DLTask (DownloadBlocksTask_ctor (f i) t (ucast n)))) [0..<m]
   \<and> nextTask (foldl (\<lambda>c' i. add_DLHeaderTask (f i) t n c') c [0..<m]) = nextTask c + m"
  by (induction m) (simp_all add: add_DLHeaderTask_def newTask_def Let_def)

lemma GetBlocks_tasks:
  fixes c :: "'v Controller"
  assumes ht: "0 \<le> ht s" "ht s < 2 ^ 31" and base: "int (length (st_headers c)) \<le> ht s"
    and dl: "0 < DL_CONCURRENCY s"
  defines "N \<equiv> (ucast (min ((word_of_int (ht s + 1) :: u64) - word_of_nat (length (st_headers c)))
                         (DL_CONCURRENCY s)) :: u32)"
    and "from' \<equiv> (word_of_nat (length (st_headers c)) :: u32)"
    and "to' \<equiv> (word_of_int (ht s) :: u32)"
  shows "tasks (process_GetBlocks s c)
       = tasks c @ map (\<lambda>i. (nextTask c + i,
                               DLTask (DownloadBlocksTask_ctor (from' + word_of_nat i) to' N)))
                     [0..<unat N]"
    and "from' \<le> to'" and "0 < N" and "unat N \<le> unat to' - unat from' + 1"
    and "unat to' + unat N < 2 ^ 32"
proof -
  let ?L = "length (st_headers c)"
  let ?H = "nat (ht s)"
  let ?num = "(word_of_int (ht s + 1) :: u64) - word_of_nat ?L"
  let ?nT = "min ?num (DL_CONCURRENCY s)"
  have LH: "?L \<le> ?H" using base ht by linarith
  have H31: "?H < 2147483648" using ht by (simp add: nat_less_iff)
  have "(word_of_int (ht s + 1) :: u64) = word_of_nat (?H + 1)"
    using ht by (simp add: nat_add_distrib flip: of_nat_nat)
  then have num: "?num = word_of_nat (?H + 1 - ?L)"
    using LH by (simp add: of_nat_diff)
  have "?H + 1 - ?L < 2 ^ 64" using H31 by simp
  then have unum: "unat ?num = ?H + 1 - ?L"
    unfolding num by (simp add: unat_of_nat)
  have numpos: "0 < ?num" using unum LH by (simp add: word_less_nat_alt)
  have unT: "unat ?nT \<le> ?H + 1 - ?L" "0 < unat ?nT"
    using unum dl LH by (auto simp: min_def word_le_nat_alt word_less_nat_alt)
  then have small: "unat ?nT < 2 ^ 32" using H31 by simp
  have uN: "unat N = unat ?nT"
    unfolding N_def using small by (simp add: unsigned_ucast_eq take_bit_nat_eq_self)
  have uf: "unat from' = ?L" unfolding from'_def using LH H31 by (simp add: unat_of_nat)
  have "to' = word_of_nat ?H" unfolding to'_def using ht by (simp flip: of_nat_nat)
  then have ut: "unat to' = ?H" using H31 by (simp add: unat_of_nat)
  show "from' \<le> to'" using uf ut LH by (simp add: word_le_nat_alt)
  show "0 < N" using uN unT by (simp add: word_less_nat_alt)
  show "unat N \<le> unat to' - unat from' + 1" using uN unT uf ut LH by linarith
  have p32: "(2::nat) ^ 32 = 4294967296" by simp
  show "unat to' + unat N < 2 ^ 32" unfolding p32 using uN unT ut H31 by linarith
  have Neq: "(ucast (min ((word_of_int (ht s) :: u64) + 1 - word_of_nat ?L) (DL_CONCURRENCY s)) :: u32) = N"
    by (simp add: N_def)
  have fi: "(ucast ((word_of_nat ?L :: u64) + word_of_nat i) :: u32) = from' + word_of_nat i" for i
    unfolding from'_def using ucast_base [of "?L + i"] by simp
  show "tasks (process_GetBlocks s c)
       = tasks c @ map (\<lambda>i. (nextTask c + i,
                               DLTask (DownloadBlocksTask_ctor (from' + word_of_nat i) to' N)))
                     [0..<unat N]"
    using ht numpos uN Neq
    by (simp add: process_GetBlocks_def Let_def fold_add_DLHeaderTask_tasks fi
        flip: to'_def)
qed

section \<open>The Controller: a node in initial block download\<close>

text \<open>
  C9. When the handler of the probe's \<open>success\<close> runs for a probe the Controller still
  holds, with a state machine in place, and the probe reports
  \<open>initialBlockDownload = true\<close>, the state becomes IBD; the call of \<open>process()\<close> that the
  handler queues then ends the round: no task has been added to the task set, the state
  machine is gone, \<open>synchFailure\<close> has been emitted and the poll timer is armed with
  60000 ms.
\<close>

theorem C9_initial_block_download:
  assumes "sm c = Some s" and "\<not> isTaskDeleted c task" and "initialBlockDownload info"
    and "\<not> fatal c"
  shows "sm (step env c (ChainInfoSuccess task info b)) = Some (s\<lparr>state := IBD\<rparr>)
    \<and> run env c [ChainInfoSuccess task info b, ProcessAgain]
        = c\<lparr>sm := None, pollTimer := Some 60000, signals := signals c @ [synchFailure]\<rparr>
    \<and> tasks (run env c [ChainInfoSuccess task info b, ProcessAgain]) = tasks c"
  using assms
  by (simp add: run_def step_def on_GetChainInfo_success_def AGAIN_def process_def stopTimer_def
      emit_def callOnTimerSoonNoRepeat_def)

text \<open>
  From the start: the first call of \<open>process()\<close> makes the probe (task 0); its report of
  initial block download leaves the probe as the only task, and the timer at 60000 ms.
\<close>

theorem C9_witness:
  "sm (process ex_env False ex_ctl) = Some (StateMachine_new ex_env)
   \<and> \<not> isTaskDeleted (process ex_env False ex_ctl) 0
   \<and> initialBlockDownload (ex_info 2 True)
   \<and> \<not> fatal (process ex_env False ex_ctl)
   \<and> run ex_env (process ex_env False ex_ctl) [ChainInfoSuccess 0 (ex_info 2 True) False, ProcessAgain]
       = ex_ctl\<lparr>tasks := [(0, GetChainInfoTask)], nextTask := 1, pollTimer := Some 60000,
                signals := [synchFailure]\<rparr>"
  using C9_initial_block_download [of "process ex_env False ex_ctl" "StateMachine_new ex_env" 0
      "ex_info 2 True" ex_env False]
  by (simp add: process_def stopTimer_def newTask_def ex_ctl_def ex_info_def isTaskDeleted_def
      StateMachine_new_def)

section \<open>The Controller: the poll timer\<close>

lemma process_pollTimer:
  "pollTimer (process env b c) \<noteq> None \<longrightarrow> sm (process env b c) = None"
proof -
  let ?c1 = "stopTimer c"
  let ?s = "case sm ?c1 of None \<Rightarrow> StateMachine_new env | Some s' \<Rightarrow> s'"
  let ?c = "?c1\<lparr>sm := Some ?s\<rparr>"
  have pt: "pollTimer ?c = None" by (simp add: stopTimer_def)
  show ?thesis
  proof (cases "state ?s")
    case Begin
    then show ?thesis by (simp add: process_def Let_def newTask_def stopTimer_def)
  next
    case GetBlocks
    then show ?thesis
      by (simp add: process_def Let_def process_GetBlocks_def fold_add_DLHeaderTask_frame
          stopTimer_def)
  next
    case DownloadingBlocks
    obtain ok c' where d: "drain env ?c = (ok, c')" by (cases "drain env ?c")
    with drain_frame [of env ?c] pt have "pollTimer c' = None" by simp
    with d DownloadingBlocks show ?thesis
      by (simp add: process_def Let_def process_DownloadingBlocks_def AGAIN_def
          split: bool.splits option.splits)
  next
    case FinishedDL
    then show ?thesis
      by (simp add: process_def Let_def stopTimer_def storage_save_def AGAIN_def)
  next
    case End
    then show ?thesis by (simp add: process_def Let_def callOnTimerSoonNoRepeat_def)
  next
    case Failure
    then show ?thesis by (simp add: process_def Let_def callOnTimerSoonNoRepeat_def emit_def)
  next
    case IBD
    then show ?thesis by (simp add: process_def Let_def callOnTimerSoonNoRepeat_def emit_def)
  qed
qed

text \<open>
  C10. The callback of the poll timer does nothing when a state machine exists. Every
  call of \<open>process\<close> stops the poll timer first: its result does not depend on whether the
  timer was armed. When \<open>process\<close> leaves the timer armed, it has deleted the state
  machine. So a poll tick that comes while a state machine exists only uses up the timer
  (which does not repeat) and changes nothing else.
\<close>

theorem C10_poll_tick_during_round:
  "(sm c \<noteq> None \<longrightarrow> pollTimerCallback env c = c)
   \<and> process env b c = process env b (stopTimer c)
   \<and> (pollTimer (process env b c) \<noteq> None \<longrightarrow> sm (process env b c) = None)
   \<and> (sm c \<noteq> None \<and> \<not> fatal c \<longrightarrow> step env c PollTimeout = stopTimer c)"
proof -
  have "step env c PollTimeout = stopTimer c" if "sm c \<noteq> None" "\<not> fatal c"
    using that by (cases "pollTimer c") (auto simp: step_def pollTimerCallback_def stopTimer_def)
  with process_pollTimer [of env b c] show ?thesis
    by (simp add: pollTimerCallback_def process_def stopTimer_def)
qed

text \<open>
  In the example round a poll tick leaves the Controller as it is (its timer is not
  armed); at the start, with no state machine, the callback runs \<open>process\<close>.
\<close>

theorem C10_witness:
  "sm ex_dl \<noteq> None \<and> \<not> fatal ex_dl
   \<and> pollTimerCallback ex_env ex_dl = ex_dl
   \<and> step ex_env ex_dl PollTimeout = ex_dl
   \<and> pollTimerCallback ex_env ex_ctl = process ex_env True ex_ctl"
  using C10_poll_tick_during_round [of ex_dl ex_env True]
  by (simp add: ex_dl_def ex_ctl_def stopTimer_def pollTimerCallback_def step_def)

section \<open>The Controller: the end of a round\<close>

lemma ex_dl_reached:
  "run ex_env (process ex_env False ex_ctl) [ChainInfoSuccess 0 (ex_info 2 False) False, ProcessAgain]
     = ex_dl"
  by (simp add: run_def step_def process_def ex_ctl_def ex_env_def ex_info_def ex_dl_def ex_sm_def
     stopTimer_def StateMachine_new_def newTask_def on_GetChainInfo_success_def isTaskDeleted_def
     AGAIN_def emit_def process_GetBlocks_def add_DLHeaderTask_def DownloadBlocksTask_ctor_def
     DownloadBlocksTask_ctor_ok_def nToDL_def upt_rec Let_def)

text \<open>
  C2 (the code at the failing input). The claim: whenever the state goes from
  DownloadingBlocks to FinishedDL, the storage tip equals \<open>endHeight\<close>. The store holds
  the header of height 0 and bitcoind reports the height 2, so the round is for the
  heights 1 and 2 and \<open>endHeight\<close> is 2 (this is the example round). The block of height 1
  arrives first. After the next call of \<open>process()\<close> the state is FinishedDL while the
  header vector has 2 headers: the tip is 1, not 2. The block of height 2, arriving then,
  is ignored, and the call of \<open>process()\<close> for FinishedDL deletes the state machine with the
  tip still at 1.
\<close>

theorem C2_FinishedDL_before_endHeight:
  "map_option state (sm (run ex_env ex_dl [PutBlock 1 (ex_blk 1), ProcessAgain])) = Some FinishedDL
   \<and> map_option endHeight (sm (run ex_env ex_dl [PutBlock 1 (ex_blk 1), ProcessAgain])) = Some 2
   \<and> length (st_headers (run ex_env ex_dl [PutBlock 1 (ex_blk 1), ProcessAgain])) = 2
   \<and> appended (run ex_env ex_dl [PutBlock 1 (ex_blk 1), ProcessAgain]) = [1]
   \<and> sm (run ex_env ex_dl [PutBlock 1 (ex_blk 1), ProcessAgain, PutBlock 2 (ex_blk 2), ProcessAgain])
       = None
   \<and> length (st_headers (run ex_env ex_dl
        [PutBlock 1 (ex_blk 1), ProcessAgain, PutBlock 2 (ex_blk 2), ProcessAgain])) = 2
   \<and> run ex_env (process ex_env False ex_ctl)
        [ChainInfoSuccess 0 (ex_info 2 False) False, ProcessAgain] = ex_dl"
  using ex_dl_reached
  by (simp add: run_def step_def process_def ex_ctl_def ex_env_def ex_blk_def ex_dl_def ex_sm_def
     stopTimer_def StateMachine_new_def isTaskDeleted_def AGAIN_def putBlock_def
     process_DownloadingBlocks_def drain.simps process_VerifyAndAddBlock_def ex_verify_def
     length_ex_hdr hd_ex_hdr storage_save_def DownloadBlocksTask_ctor_def nToDL_def Let_def
     word_le_nat_alt)

section \<open>The Controller: headers are appended in the order of the heights\<close>

lemma process_GetBlocks_inv:
  assumes "consecutive a c"
  shows "consecutive a (process_GetBlocks s c) \<and> round_inv (process_GetBlocks s c)
         \<and> pollTimer (process_GetBlocks s c) = pollTimer c"
  using assms
  by (simp add: process_GetBlocks_def Let_def round_inv_def consecutive_def
      fold_add_DLHeaderTask_frame ucast_base)

lemma process_DownloadingBlocks_inv:
  assumes "sm c = Some s" and "state s = DownloadingBlocks"
    and "ppBlkHtNext s = word_of_nat (length (st_headers c))"
  shows "consecutive c (process_DownloadingBlocks env c) \<and> round_inv (process_DownloadingBlocks env c)
         \<and> pollTimer (process_DownloadingBlocks env c) = pollTimer c"
proof -
  obtain b c' where d: "drain env c = (b, c')" by (cases "drain env c")
  from drain_inv [OF assms, of env] d have p: "drain_post c b c'" by simp
  show ?thesis
  proof (cases b)
    case False
    with p d show ?thesis
      by (auto simp: process_DownloadingBlocks_def drain_post_def round_inv_def)
  next
    case True
    with p d show ?thesis
      by (auto simp: process_DownloadingBlocks_def drain_post_def round_inv_def AGAIN_def
          consecutive_def split: option.splits)
  qed
qed

lemma process_inv:
  assumes "round_inv c" and "\<not> fatal c"
  shows "consecutive c (process env b c) \<and> round_inv (process env b c)"
proof -
  let ?c1 = "stopTimer c"
  let ?s = "case sm ?c1 of None \<Rightarrow> StateMachine_new env | Some s' \<Rightarrow> s'"
  let ?c = "?c1\<lparr>sm := Some ?s\<rparr>"
  have c0: "consecutive c ?c" by (simp add: consecutive_def stopTimer_def)
  have hd: "st_headers ?c = st_headers c" "appended ?c = appended c" by (simp_all add: stopTimer_def)
  show ?thesis
  proof (cases "state ?s")
    case Begin
    then show ?thesis
      by (simp add: process_def Let_def newTask_def consecutive_def round_inv_def stopTimer_def)
  next
    case GetBlocks
    with process_GetBlocks_inv [OF c0, of ?s] show ?thesis
      by (simp add: process_def Let_def)
  next
    case DownloadingBlocks
    then have "sm c \<noteq> None"
      by (auto simp: stopTimer_def StateMachine_new_def split: option.splits)
    with DownloadingBlocks assms have nx: "ppBlkHtNext ?s = word_of_nat (length (st_headers ?c))"
      by (auto simp: round_inv_def stopTimer_def split: option.splits)
    have "sm ?c = Some ?s" by simp
    from process_DownloadingBlocks_inv [OF this DownloadingBlocks nx, of env] DownloadingBlocks
    show ?thesis
      using consecutive_trans [OF c0] by (simp add: process_def Let_def)
  next
    case FinishedDL
    then show ?thesis
      by (simp add: process_def Let_def consecutive_def round_inv_def stopTimer_def
          storage_save_def AGAIN_def)
  next
    case End
    then show ?thesis
      by (simp add: process_def Let_def consecutive_def round_inv_def stopTimer_def
          callOnTimerSoonNoRepeat_def)
  next
    case Failure
    then show ?thesis
      by (simp add: process_def Let_def consecutive_def round_inv_def stopTimer_def
          callOnTimerSoonNoRepeat_def emit_def)
  next
    case IBD
    then show ?thesis
      by (simp add: process_def Let_def consecutive_def round_inv_def stopTimer_def
          callOnTimerSoonNoRepeat_def emit_def)
  qed
qed

lemma step_inv:
  assumes "round_inv c"
  shows "consecutive c (step env c ev) \<and> round_inv (step env c ev)"
proof (cases "fatal c")
  case True
  with assms show ?thesis by (simp add: step_def consecutive_refl)
next
  case nf: False
  show ?thesis
  proof (cases ev)
    case (PutBlock task p)
    with assms nf show ?thesis
      by (auto simp: step_def putBlock_def AGAIN_def consecutive_def round_inv_def
          split: option.splits)
  next
    case ProcessAgain
    have "round_inv (c\<lparr>ctl_again := ctl_again c - 1\<rparr>)" "\<not> fatal (c\<lparr>ctl_again := ctl_again c - 1\<rparr>)"
      using assms nf by (auto simp: round_inv_def split: option.splits)
    from process_inv [OF this, of env False] ProcessAgain nf assms show ?thesis
      by (simp add: step_def consecutive_def)
  next
    case PollTimeout
    have ri: "round_inv (c\<lparr>pollTimer := None\<rparr>)" "\<not> fatal (c\<lparr>pollTimer := None\<rparr>)"
      using assms nf by (auto simp: round_inv_def split: option.splits)
    from process_inv [OF ri, of env True] ri(1) PollTimeout nf assms show ?thesis
      by (simp add: step_def pollTimerCallback_def consecutive_def split: option.splits)
  next
    case (ChainInfoSuccess task info b)
    with assms nf show ?thesis
      by (auto simp: step_def on_GetChainInfo_success_def AGAIN_def emit_def Let_def
          consecutive_def round_inv_def split: option.splits)
  next
    case ProbeErrored
    with assms nf show ?thesis
      by (auto simp: step_def genericTaskErrored_def AGAIN_def consecutive_def round_inv_def
          split: option.splits)
  next
    case (DLTaskErrored task)
    with assms nf show ?thesis
      by (auto simp: step_def on_DLTask_errored_def genericTaskErrored_def AGAIN_def
          consecutive_def round_inv_def split: option.splits)
  next
    case (TaskFinished task)
    with assms nf show ?thesis
      by (auto simp: step_def rmTask_def consecutive_def round_inv_def split: option.splits)
  qed
qed

lemma run_inv:
  assumes "round_inv c"
  shows "consecutive c (run env c evs) \<and> round_inv (run env c evs)"
  using assms
proof (induction evs arbitrary: c)
  case Nil
  then show ?case by (simp add: run_def consecutive_refl)
next
  case (Cons ev evs)
  from step_inv [OF Cons.prems, of env ev]
  have s: "consecutive c (step env c ev)" "round_inv (step env c ev)" by simp_all
  from Cons.IH [OF s(2)] have "consecutive (step env c ev) (run env (step env c ev) evs)"
    "round_inv (run env (step env c ev) evs)" by simp_all
  with s(1) show ?case
    by (auto simp: run_def intro: consecutive_trans)
qed

lemma upt_shift: "a \<le> b \<Longrightarrow> [a..<b] = map (\<lambda>i. a + i) [0..<b - a]"
  by (simp add: map_add_upt add.commute)

lemma unat_of_nat_upt:
  assumes "b \<le> 2 ^ 32"
  shows "map unat (map word_of_nat [a..<b] :: u32 list) = [a..<b]"
proof -
  have "map (\<lambda>i. unat (word_of_nat i :: u32)) [a..<b] = [a..<b]"
  proof (rule map_idI)
    fix i assume "i \<in> set [a..<b]"
    with assms have "i < 2 ^ 32" by simp
    then show "unat (word_of_nat i :: u32) = i" by (simp add: unat_of_nat)
  qed
  then show ?thesis by (simp add: comp_def)
qed

text \<open>
  C1. Take the Controller as state GetBlocks leaves it: in DownloadingBlocks, the next
  height awaited equal to \<open>startheight\<close>, and \<open>startheight\<close> the size of the header vector.
  Whatever events follow, in whatever order (\<open>putBlock\<close> messages of any tasks with any
  blocks, calls of \<open>process()\<close>, and all the others), the blocks whose headers are
  inserted into the header vector have the heights \<open>startheight\<close>, \<open>startheight + 1\<close>,
  \<open>startheight + 2\<close>, ... in this order, one for each header the vector has gained: the
  header of a height is inserted only after those of all the heights from \<open>startheight\<close>
  below it. As long as the header vector holds at most \<open>2^32\<close> headers, these heights,
  read as numbers, are the indices at which the headers were inserted, strictly ascending
  without a gap.
\<close>

theorem C1_headers_appended_in_height_order:
  assumes "sm c = Some s" and "state s = DownloadingBlocks"
    and "ppBlkHtNext s = startheight s"
    and "startheight s = word_of_nat (length (st_headers c))"
  shows "length (st_headers c) \<le> length (st_headers (run env c evs))
       \<and> appended (run env c evs)
           = appended c @ map (\<lambda>i. startheight s + word_of_nat i)
                            [0..<length (st_headers (run env c evs)) - length (st_headers c)]
       \<and> (length (st_headers (run env c evs)) \<le> 2 ^ 32
           \<longrightarrow> map unat (drop (length (appended c)) (appended (run env c evs)))
                 = [length (st_headers c)..<length (st_headers (run env c evs))])"
proof -
  let ?c' = "run env c evs"
  have "round_inv c" using assms by (simp add: round_inv_def)
  from run_inv [OF this, of env evs] have le: "length (st_headers c) \<le> length (st_headers ?c')"
    and app: "appended ?c' = appended c @ map word_of_nat [length (st_headers c)..<length (st_headers ?c')]"
    by (simp_all add: consecutive_def)
  have "map word_of_nat [length (st_headers c)..<length (st_headers ?c')]
      = map (\<lambda>i. startheight s + word_of_nat i) [0..<length (st_headers ?c') - length (st_headers c)]"
    using assms(4) by (subst upt_shift [OF le]) (simp add: comp_def)
  moreover have "map unat (drop (length (appended c)) (appended ?c'))
                 = [length (st_headers c)..<length (st_headers ?c')]"
    if "length (st_headers ?c') \<le> 2 ^ 32"
    using unat_of_nat_upt [OF that] app by simp
  ultimately show ?thesis using le app by simp
qed

text \<open>
  In the example round the block of height 2 arrives before the block of height 1: nothing
  is inserted until the block of height 1 is there, then the headers of the heights 1 and
  2 are inserted in this order.
\<close>

theorem C1_witness:
  "sm ex_dl = Some ex_sm \<and> state ex_sm = DownloadingBlocks
   \<and> ppBlkHtNext ex_sm = startheight ex_sm
   \<and> startheight ex_sm = word_of_nat (length (st_headers ex_dl))
   \<and> appended (run ex_env ex_dl [PutBlock 2 (ex_blk 2), ProcessAgain]) = []
   \<and> appended (run ex_env ex_dl
        [PutBlock 2 (ex_blk 2), ProcessAgain, PutBlock 1 (ex_blk 1), ProcessAgain]) = [1, 2]
   \<and> st_headers (run ex_env ex_dl
        [PutBlock 2 (ex_blk 2), ProcessAgain, PutBlock 1 (ex_blk 1), ProcessAgain])
       = [ex_hdr 0, ex_hdr 1, ex_hdr 2]"
  using C1_headers_appended_in_height_order [of ex_dl ex_sm ex_env
      "[PutBlock 2 (ex_blk 2), ProcessAgain, PutBlock 1 (ex_blk 1), ProcessAgain]"]
  by (simp add: run_def step_def process_def ex_ctl_def ex_env_def ex_blk_def ex_dl_def ex_sm_def
     stopTimer_def StateMachine_new_def isTaskDeleted_def AGAIN_def putBlock_def
     process_DownloadingBlocks_def drain.simps process_VerifyAndAddBlock_def ex_verify_def
     length_ex_hdr hd_ex_hdr storage_save_def DownloadBlocksTask_ctor_def nToDL_def Let_def
     word_le_nat_alt)

end
